theory Spec2Isabelle
  imports Main "HOL-Library.AList" "HOL-Library.Product_Lexorder"
begin

section \<open>Data model\<close>

text \<open>
  The solver of \<^verbatim>\<open>generate.py\<close> works on an instance of class \<^verbatim>\<open>Crossword\<close>
  whose variables are objects of class \<^verbatim>\<open>Variable\<close>. Both classes live in
  \<^verbatim>\<open>crossword.py\<close>; the solver reads the fields \<^verbatim>\<open>variables\<close>,
  \<^verbatim>\<open>words\<close>, \<^verbatim>\<open>overlaps\<close> and calls \<^verbatim>\<open>neighbors\<close>. The instance is
  a parameter of every function below.

  A Python \<^verbatim>\<open>set\<close> is represented by the list of its elements in iteration order, a
  \<^verbatim>\<open>dict\<close> by an association list in insertion order, without aliasing between
  the domains (the constructor copies the vocabulary for each variable). The statements about
  domains speak about their elements (\<open>set\<close>) and the mapping (\<open>map_of\<close>) only.
\<close>

datatype direction = ACROSS | DOWN

datatype variable =
  Variable (var_i: int) (var_j: int) (var_direction: direction) (var_length: nat)

record crossword =
  variables :: "variable list"
  words :: "string list"
  overlaps :: "variable \<Rightarrow> variable \<Rightarrow> (nat \<times> nat) option"

text \<open>
  Modelled from the spec: \<^verbatim>\<open>Crossword.neighbors\<close> is a method of the instance class,
  whose source is not part of \<^verbatim>\<open>generate.py\<close>. The specification describes it as
  the set of variables overlapping a given variable, derived from the overlap relation, which
  is defined on pairs of distinct variables.
\<close>

definition neighbors :: "crossword \<Rightarrow> variable \<Rightarrow> variable list" where
  "neighbors cw var = filter (\<lambda>v. v \<noteq> var \<and> overlaps cw v var \<noteq> None) (variables cw)"

datatype error = IndexError | KeyError

type_synonym domains = "(variable \<times> string list) list"

type_synonym assignment = "(variable \<times> string) list"

text \<open>\<^verbatim>\<open>word[k]\<close> on a Python string raises \<^verbatim>\<open>IndexError\<close> when \<open>k\<close> is not
  a position of the word.\<close>

definition letter :: "string \<Rightarrow> nat \<Rightarrow> error + char" where
  "letter word k = (if k < length word then Inr (word ! k) else Inl IndexError)"

text \<open>The two letters exist and are the same: what \<^verbatim>\<open>w[i] == w'[j]\<close> means when it
  evaluates to \<^verbatim>\<open>True\<close>.\<close>

definition agree :: "nat \<Rightarrow> nat \<Rightarrow> string \<Rightarrow> string \<Rightarrow> bool" where
  "agree i j w w' = (i < length w \<and> j < length w' \<and> w ! i = w' ! j)"

section \<open>The solver\<close>

subsection \<open>Constructor and node consistency\<close>

definition init_domains :: "crossword \<Rightarrow> domains" where
  "init_domains cw = map (\<lambda>var. (var, words cw)) (variables cw)"

definition node_valid_words :: "variable \<Rightarrow> string list \<Rightarrow> string list" where
  "node_valid_words var domain_words =
     fold (\<lambda>word valid_words.
             if length word = var_length var then List.insert word valid_words
             else valid_words) domain_words []"

definition enforce_node_consistency :: "domains \<Rightarrow> domains" where
  "enforce_node_consistency doms = map (\<lambda>(var, domain_words). (var, node_valid_words var domain_words)) doms"

subsection \<open>Revise and AC-3\<close>

text \<open>\<^verbatim>\<open>any(word_x[i] == word_y[j] for word_y in self.domains[y])\<close>: stops at the first
  match, raises at the first letter that does not exist.\<close>

fun any_match :: "nat \<Rightarrow> nat \<Rightarrow> string \<Rightarrow> string list \<Rightarrow> error + bool" where
  "any_match i j word_x [] = Inr False"
| "any_match i j word_x (word_y # rest) =
     (case letter word_x i of
        Inl e \<Rightarrow> Inl e
      | Inr a \<Rightarrow>
          (case letter word_y j of
             Inl e \<Rightarrow> Inl e
           | Inr b \<Rightarrow> if a = b then Inr True else any_match i j word_x rest))"

text \<open>The loop of \<^verbatim>\<open>revise\<close> over the words of \<^verbatim>\<open>self.domains[x]\<close>, with its two
  local variables \<^verbatim>\<open>words_to_remove\<close> and \<^verbatim>\<open>revised\<close>.\<close>

fun revise_loop ::
  "domains \<Rightarrow> variable \<Rightarrow> nat \<Rightarrow> nat \<Rightarrow> string list \<Rightarrow> string list \<Rightarrow> bool
     \<Rightarrow> error + (string list \<times> bool)" where
  "revise_loop doms y i j [] words_to_remove revised = Inr (words_to_remove, revised)"
| "revise_loop doms y i j (word_x # rest) words_to_remove revised =
     (case map_of doms y of
        None \<Rightarrow> Inl KeyError
      | Some dy \<Rightarrow>
          (case any_match i j word_x dy of
             Inl e \<Rightarrow> Inl e
           | Inr found \<Rightarrow>
               if \<not> found
               then revise_loop doms y i j rest (List.insert word_x words_to_remove) True
               else revise_loop doms y i j rest words_to_remove revised))"

definition revise :: "crossword \<Rightarrow> domains \<Rightarrow> variable \<Rightarrow> variable \<Rightarrow> error + (domains \<times> bool)" where
  "revise cw doms x y =
     (case overlaps cw x y of
        None \<Rightarrow> Inr (doms, False)
      | Some (i, j) \<Rightarrow>
          (case map_of doms x of
             None \<Rightarrow> Inl KeyError
           | Some dx \<Rightarrow>
               (case revise_loop doms y i j dx [] False of
                  Inl e \<Rightarrow> Inl e
                | Inr (words_to_remove, revised) \<Rightarrow>
                    Inr (AList.update x (filter (\<lambda>w. w \<notin> set words_to_remove) dx) doms,
                         revised))))"

definition dom_size :: "domains \<Rightarrow> nat" where
  "dom_size doms = sum_list (map (\<lambda>(v, d). length d) doms)"

lemma any_match_Inr:
  "any_match i j w dy = Inr b \<Longrightarrow> b = (\<exists>w'\<in>set dy. agree i j w w')"
  by (induction dy) (auto simp: letter_def agree_def split: if_splits sum.splits)

lemma any_match_total:
  "i < length w \<Longrightarrow> \<forall>w'\<in>set dy. j < length w' \<Longrightarrow>
   any_match i j w dy = Inr (\<exists>w'\<in>set dy. agree i j w w')"
  by (induction dy) (auto simp: letter_def agree_def)

lemma any_match_empty [simp]: "any_match i j w [] = Inr False"
  by simp

lemma revise_loop_Inr:
  "revise_loop doms y i j ws acc rv = Inr (rmv, rvd) \<Longrightarrow> map_of doms y = Some dy \<Longrightarrow>
   set rmv = set acc \<union> {w \<in> set ws. \<not> (\<exists>w'\<in>set dy. agree i j w w')} \<and>
   (rvd \<longleftrightarrow> rv \<or> (\<exists>w\<in>set ws. \<not> (\<exists>w'\<in>set dy. agree i j w w')))"
proof (induction ws arbitrary: acc rv)
  case Nil
  then show ?case by simp
next
  case (Cons w ws)
  from Cons.prems obtain found where f: "any_match i j w dy = Inr found"
    by (auto split: sum.splits)
  then have fb: "found = (\<exists>w'\<in>set dy. agree i j w w')"
    by (rule any_match_Inr)
  show ?case
  proof (cases found)
    case True
    with Cons.prems f have "revise_loop doms y i j ws acc rv = Inr (rmv, rvd)"
      by simp
    from Cons.IH [OF this Cons.prems(2)] True fb show ?thesis
      by auto
  next
    case False
    with Cons.prems f
    have "revise_loop doms y i j ws (List.insert w acc) True = Inr (rmv, rvd)"
      by simp
    from Cons.IH [OF this Cons.prems(2)] False fb show ?thesis
      by auto
  qed
qed

lemma revise_loop_KeyError:
  "revise_loop doms y i j ws acc rv = Inr (rmv, rvd) \<Longrightarrow> ws \<noteq> [] \<Longrightarrow>
   \<exists>dy. map_of doms y = Some dy"
  by (cases ws) (auto split: option.splits)

lemma revise_loop_total:
  "map_of doms y = Some dy \<Longrightarrow> \<forall>w\<in>set ws. i < length w \<Longrightarrow> \<forall>w'\<in>set dy. j < length w' \<Longrightarrow>
   \<exists>rmv rvd. revise_loop doms y i j ws acc rv = Inr (rmv, rvd)"
  by (induction ws arbitrary: acc rv) (auto simp: any_match_total)

lemma dom_size_update:
  "map_of doms x = Some dx \<Longrightarrow>
   dom_size (AList.update x d' doms) + length dx = dom_size doms + length d'"
  by (induction doms) (auto simp: dom_size_def)

lemma filter_removes_shorter:
  "w \<in> set dx \<Longrightarrow> \<not> P w \<Longrightarrow> length (filter P dx) < length dx"
  by (induction dx) (auto simp: less_Suc_eq_le)

lemma filter_keeps_all: "\<forall>w\<in>set dx. P w \<Longrightarrow> filter P dx = dx"
  by (induction dx) auto

lemma revise_size:
  assumes "revise cw doms x y = Inr (doms', revised)"
  shows "(revised \<longrightarrow> dom_size doms' < dom_size doms) \<and> (\<not> revised \<longrightarrow> doms' = doms)"
proof (cases "overlaps cw x y")
  case None
  with assms show ?thesis by (simp add: revise_def)
next
  case (Some ij)
  obtain i j where ij: "ij = (i, j)" by (cases ij)
  from assms Some ij obtain dx where dx: "map_of doms x = Some dx"
    by (auto simp: revise_def split: option.splits)
  from assms Some ij dx obtain rmv where
    rl: "revise_loop doms y i j dx [] False = Inr (rmv, revised)" and
    d': "doms' = AList.update x (filter (\<lambda>w. w \<notin> set rmv) dx) doms"
    by (auto simp: revise_def split: sum.splits)
  show ?thesis
  proof (cases dx)
    case Nil
    with rl d' dx show ?thesis by (auto simp: update_triv)
  next
    case (Cons w ws)
    with rl obtain dy where dy: "map_of doms y = Some dy"
      using revise_loop_KeyError by blast
    note ch = revise_loop_Inr [OF rl dy]
    show ?thesis
    proof (cases revised)
      case True
      with ch obtain w where w: "w \<in> set dx" "w \<in> set rmv" by auto
      then have "length (filter (\<lambda>w. w \<notin> set rmv) dx) < length dx"
        by (intro filter_removes_shorter [of w]) auto
      with dom_size_update [OF dx, of "filter (\<lambda>w. w \<notin> set rmv) dx"] d' True
      show ?thesis by simp
    next
      case False
      with ch have "\<forall>w\<in>set dx. w \<notin> set rmv" by auto
      then have "filter (\<lambda>w. w \<notin> set rmv) dx = dx" by (rule filter_keeps_all)
      with d' dx False show ?thesis by (simp add: update_triv)
    qed
  qed
qed

text \<open>The worklist loop of \<^verbatim>\<open>ac3\<close>: \<^verbatim>\<open>queue.pop(0)\<close> takes the head,
  \<^verbatim>\<open>queue.append\<close> adds at the end.\<close>

function ac3_loop ::
  "crossword \<Rightarrow> domains \<Rightarrow> (variable \<times> variable) list \<Rightarrow> error + (domains \<times> bool)" where
  "ac3_loop cw doms [] = Inr (doms, True)"
| "ac3_loop cw doms ((x, y) # queue) =
     (case revise cw doms x y of
        Inl e \<Rightarrow> Inl e
      | Inr (doms', revised) \<Rightarrow>
          if revised then
            (case map_of doms' x of
               None \<Rightarrow> Inl KeyError
             | Some dx \<Rightarrow>
                 if length dx = 0 then Inr (doms', False)
                 else ac3_loop cw doms'
                        (queue @ map (\<lambda>z. (z, x)) (filter (\<lambda>z. z \<noteq> y) (neighbors cw x))))
          else ac3_loop cw doms' queue)"
  by pat_completeness auto

termination
proof (relation "measures [\<lambda>(cw, doms, queue). dom_size doms, \<lambda>(cw, doms, queue). length queue]",
    goal_cases)
  case 1
  show ?case by simp
next
  case (2 cw doms x y queue r doms' revised dx)
  then show ?case using revise_size [of cw doms x y doms' revised] by simp
next
  case (3 cw doms x y queue r doms' revised)
  then show ?case using revise_size [of cw doms x y doms' revised] by simp
qed

definition ac3 ::
  "crossword \<Rightarrow> domains \<Rightarrow> (variable \<times> variable) list option \<Rightarrow> error + (domains \<times> bool)" where
  "ac3 cw doms arcs =
     (let queue = (case arcs of
                     None \<Rightarrow> concat (map (\<lambda>x. map (\<lambda>y. (x, y)) (neighbors cw x)) (variables cw))
                   | Some given \<Rightarrow> given)
      in ac3_loop cw doms queue)"

subsection \<open>Example instances\<close>

text \<open>Two crossing slots of length 3: the second letter of the across word is the first
  letter of the down word.\<close>

definition slot_A :: variable where
  "slot_A = Variable 0 0 ACROSS 3"

definition slot_B :: variable where
  "slot_B = Variable 0 1 DOWN 3"

definition cross_overlaps :: "variable \<Rightarrow> variable \<Rightarrow> (nat \<times> nat) option" where
  "cross_overlaps x y =
     (if x = slot_A \<and> y = slot_B then Some (1, 0)
      else if x = slot_B \<and> y = slot_A then Some (0, 1)
      else None)"

definition cross_sat :: crossword where
  "cross_sat = \<lparr>variables = [slot_A, slot_B], words = [''CAT'', ''CAR'', ''ART''],
                overlaps = cross_overlaps\<rparr>"

definition cross_unsat :: crossword where
  "cross_unsat = \<lparr>variables = [slot_A, slot_B], words = [''CAT'', ''DOG''],
                  overlaps = cross_overlaps\<rparr>"

definition cross_doms :: domains where
  "cross_doms = [(slot_A, [''CAT'', ''CAR'', ''ART'']), (slot_B, [''CAT'', ''CAR'', ''ART''])]"

lemma slots_distinct [simp]: "slot_A \<noteq> slot_B" "slot_B \<noteq> slot_A"
  by (simp_all add: slot_A_def slot_B_def)

section \<open>Revise\<close>

lemma revise_no_overlap:
  "overlaps cw x y = None \<Longrightarrow> revise cw doms x y = Inr (doms, False)"
  by (simp add: revise_def)

lemma revise_overlap:
  assumes ov: "overlaps cw x y = Some (i, j)"
    and dx: "map_of doms x = Some dx" and dy: "map_of doms y = Some dy"
    and lx: "\<forall>w\<in>set dx. i < length w" and ly: "\<forall>w'\<in>set dy. j < length w'"
  shows "revise cw doms x y =
     Inr (AList.update x (filter (\<lambda>w. \<exists>w'\<in>set dy. w ! i = w' ! j) dx) doms,
          \<exists>w\<in>set dx. \<forall>w'\<in>set dy. w ! i \<noteq> w' ! j)"
proof -
  from revise_loop_total [OF dy lx ly] obtain rmv rvd where
    rl: "revise_loop doms y i j dx [] False = Inr (rmv, rvd)" by blast
  note ch = revise_loop_Inr [OF rl dy]
  have ag: "\<And>w. w \<in> set dx \<Longrightarrow>
      (\<exists>w'\<in>set dy. agree i j w w') = (\<exists>w'\<in>set dy. w ! i = w' ! j)"
    using lx ly by (auto simp: agree_def)
  have "filter (\<lambda>w. w \<notin> set rmv) dx = filter (\<lambda>w. \<exists>w'\<in>set dy. w ! i = w' ! j) dx"
    by (rule filter_cong) (use ch ag in auto)
  moreover have "rvd = (\<exists>w\<in>set dx. \<forall>w'\<in>set dy. w ! i \<noteq> w' ! j)"
    using ch ag by auto
  ultimately show ?thesis
    using ov dx rl by (simp add: revise_def)
qed

lemma revise_effect:
  assumes r: "revise cw doms x y = Inr (d1, revised)"
  shows "(overlaps cw x y = None \<and> d1 = doms \<and> \<not> revised) \<or>
    (\<exists>i j dx dx'. overlaps cw x y = Some (i, j) \<and> map_of doms x = Some dx \<and>
       map_of d1 = (map_of doms)(x \<mapsto> dx') \<and> (\<not> revised \<longrightarrow> d1 = doms) \<and>
       (\<forall>w. w \<in> set dx' \<longleftrightarrow>
          w \<in> set dx \<and> (\<exists>dy w'. map_of doms y = Some dy \<and> w' \<in> set dy \<and> agree i j w w')) \<and>
       (revised \<longleftrightarrow> set dx' \<noteq> set dx))"
proof (cases "overlaps cw x y")
  case None
  with r show ?thesis by (simp add: revise_def)
next
  case (Some ij)
  obtain i j where ij: "ij = (i, j)" by (cases ij)
  from r Some ij obtain dx where dx: "map_of doms x = Some dx"
    by (auto simp: revise_def split: option.splits)
  from r Some ij dx obtain rmv where
    rl: "revise_loop doms y i j dx [] False = Inr (rmv, revised)" and
    d1: "d1 = AList.update x (filter (\<lambda>w. w \<notin> set rmv) dx) doms"
    by (auto simp: revise_def split: sum.splits)
  let ?dx' = "filter (\<lambda>w. w \<notin> set rmv) dx"
  have m: "map_of d1 = (map_of doms)(x \<mapsto> ?dx')" unfolding d1 by (rule update_conv')
  have n: "\<not> revised \<longrightarrow> d1 = doms" using revise_size [OF r] by simp
  have c: "(\<forall>w. w \<in> set ?dx' \<longleftrightarrow>
      w \<in> set dx \<and> (\<exists>dy w'. map_of doms y = Some dy \<and> w' \<in> set dy \<and> agree i j w w')) \<and>
      (revised \<longleftrightarrow> set ?dx' \<noteq> set dx)"
  proof (cases dx)
    case Nil
    with rl show ?thesis by simp
  next
    case (Cons a list)
    then have "dx \<noteq> []" by simp
    with revise_loop_KeyError [OF rl] obtain dy where dy: "map_of doms y = Some dy" by blast
    from revise_loop_Inr [OF rl dy]
    have s: "set rmv = {w \<in> set dx. \<not> (\<exists>w'\<in>set dy. agree i j w w')}"
      and v: "revised \<longleftrightarrow> (\<exists>w\<in>set dx. \<not> (\<exists>w'\<in>set dy. agree i j w w'))" by simp_all
    from s dy have 1: "\<forall>w. w \<in> set ?dx' \<longleftrightarrow>
      w \<in> set dx \<and> (\<exists>dy w'. map_of doms y = Some dy \<and> w' \<in> set dy \<and> agree i j w w')"
      by auto
    from s v have 2: "revised \<longleftrightarrow> set ?dx' \<noteq> set dx" by auto
    from 1 2 show ?thesis by (rule conjI)
  qed
  from Some ij dx m n c show ?thesis by blast
qed

text \<open>
  C5. When \<open>x\<close> and \<open>y\<close> do not overlap, \<open>revise\<close> returns \<open>False\<close> and the domain store
  is unchanged. When they overlap at \<open>(i, j)\<close> and the letters at these positions exist in
  the words of both domains (as they do once the domains are node consistent), \<open>revise\<close>
  returns; it replaces the domain of \<open>x\<close> by exactly its words \<open>w\<close> that have some \<open>w'\<close> in
  the domain of \<open>y\<close> with \<open>w[i] = w'[j]\<close>, changes no other domain, and returns \<open>True\<close> if
  and only if some word of the domain of \<open>x\<close> had no such \<open>w'\<close>, that is, was removed.
  Whenever \<open>revise\<close> returns at all on overlapping variables, the words it keeps are
  exactly those that have such a \<open>w'\<close>, and it returns \<open>True\<close> if and only if the domain of
  \<open>x\<close> has changed.
\<close>

theorem revise_contract:
  "(overlaps cw x y = None \<longrightarrow> revise cw doms x y = Inr (doms, False)) \<and>
   (overlaps cw x y = Some (i, j) \<and> map_of doms x = Some dx \<and> map_of doms y = Some dy \<and>
    (\<forall>w\<in>set dx. i < length w) \<and> (\<forall>w'\<in>set dy. j < length w') \<longrightarrow>
      (\<exists>doms' revised.
         revise cw doms x y = Inr (doms', revised) \<and>
         map fst doms' = map fst doms \<and>
         map_of doms' x = Some (filter (\<lambda>w. \<exists>w'\<in>set dy. w ! i = w' ! j) dx) \<and>
         (\<forall>v. v \<noteq> x \<longrightarrow> map_of doms' v = map_of doms v) \<and>
         (revised \<longleftrightarrow> (\<exists>w\<in>set dx. \<forall>w'\<in>set dy. w ! i \<noteq> w' ! j)) \<and>
         (revised \<longleftrightarrow> set (the (map_of doms' x)) \<noteq> set dx))) \<and>
   (overlaps cw x y = Some (i, j) \<and> revise cw doms x y = Inr (doms', revised) \<longrightarrow>
      (\<exists>dx dx'. map_of doms x = Some dx \<and> map_of doms' = (map_of doms)(x \<mapsto> dx') \<and>
         (\<forall>w. w \<in> set dx' \<longleftrightarrow>
            w \<in> set dx \<and>
            (\<exists>dy w'. map_of doms y = Some dy \<and> w' \<in> set dy \<and>
               i < length w \<and> j < length w' \<and> w ! i = w' ! j)) \<and>
         (revised \<longleftrightarrow> set dx' \<noteq> set dx)))"
proof (intro conjI impI)
  assume "overlaps cw x y = None"
  then show "revise cw doms x y = Inr (doms, False)" by (rule revise_no_overlap)
next
  assume a: "overlaps cw x y = Some (i, j) \<and> map_of doms x = Some dx \<and>
    map_of doms y = Some dy \<and> (\<forall>w\<in>set dx. i < length w) \<and> (\<forall>w'\<in>set dy. j < length w')"
  let ?new = "filter (\<lambda>w. \<exists>w'\<in>set dy. w ! i = w' ! j) dx"
  from a have r: "revise cw doms x y =
     Inr (AList.update x ?new doms, \<exists>w\<in>set dx. \<forall>w'\<in>set dy. w ! i \<noteq> w' ! j)"
    by (intro revise_overlap) auto
  from a have "x \<in> fst ` set doms" by (auto dest: map_of_SomeD intro: rev_image_eqI)
  then have k: "map fst (AList.update x ?new doms) = map fst doms"
    by (simp add: update_keys)
  have m: "map_of (AList.update x ?new doms) = (map_of doms)(x \<mapsto> ?new)"
    by (rule update_conv')
  have s: "(\<exists>w\<in>set dx. \<forall>w'\<in>set dy. w ! i \<noteq> w' ! j) \<longleftrightarrow> set ?new \<noteq> set dx"
    by auto
  show "\<exists>doms' revised.
         revise cw doms x y = Inr (doms', revised) \<and>
         map fst doms' = map fst doms \<and>
         map_of doms' x = Some ?new \<and>
         (\<forall>v. v \<noteq> x \<longrightarrow> map_of doms' v = map_of doms v) \<and>
         (revised \<longleftrightarrow> (\<exists>w\<in>set dx. \<forall>w'\<in>set dy. w ! i \<noteq> w' ! j)) \<and>
         (revised \<longleftrightarrow> set (the (map_of doms' x)) \<noteq> set dx)"
    using r k m s by simp
next
  assume b: "overlaps cw x y = Some (i, j) \<and> revise cw doms x y = Inr (doms', revised)"
  then have ov: "overlaps cw x y = Some (i, j)"
    and r: "revise cw doms x y = Inr (doms', revised)" by simp_all
  from revise_effect [OF r] ov
  show "\<exists>dx dx'. map_of doms x = Some dx \<and> map_of doms' = (map_of doms)(x \<mapsto> dx') \<and>
         (\<forall>w. w \<in> set dx' \<longleftrightarrow>
            w \<in> set dx \<and>
            (\<exists>dy w'. map_of doms y = Some dy \<and> w' \<in> set dy \<and>
               i < length w \<and> j < length w' \<and> w ! i = w' ! j)) \<and>
         (revised \<longleftrightarrow> set dx' \<noteq> set dx)"
    unfolding agree_def by auto
qed

theorem revise_contract_witness:
  "overlaps cross_sat slot_A slot_B = Some (1, 0) \<and>
   (\<exists>doms' revised. revise cross_sat cross_doms slot_A slot_B = Inr (doms', revised) \<and>
      map_of doms' slot_A = Some [''CAT'', ''CAR''] \<and> revised)"
proof -
  have o: "overlaps cross_sat slot_A slot_B = Some (1, 0)"
    by (simp add: cross_sat_def cross_overlaps_def)
  have d: "map_of cross_doms slot_A = Some [''CAT'', ''CAR'', ''ART'']"
    "map_of cross_doms slot_B = Some [''CAT'', ''CAR'', ''ART'']"
    by (simp_all add: cross_doms_def)
  have l: "\<forall>w\<in>set [''CAT'', ''CAR'', ''ART'']. 1 < length w"
    "\<forall>w'\<in>set [''CAT'', ''CAR'', ''ART'']. 0 < length w'" by simp_all
  from revise_contract [of cross_sat slot_A slot_B cross_doms 1 0
      "[''CAT'', ''CAR'', ''ART'']" "[''CAT'', ''CAR'', ''ART'']"]
  have "overlaps cross_sat slot_A slot_B = Some (1, 0) \<and>
      map_of cross_doms slot_A = Some [''CAT'', ''CAR'', ''ART''] \<and>
      map_of cross_doms slot_B = Some [''CAT'', ''CAR'', ''ART''] \<and>
      (\<forall>w\<in>set [''CAT'', ''CAR'', ''ART'']. 1 < length w) \<and>
      (\<forall>w'\<in>set [''CAT'', ''CAR'', ''ART'']. 0 < length w') \<longrightarrow>
      (\<exists>doms' revised.
         revise cross_sat cross_doms slot_A slot_B = Inr (doms', revised) \<and>
         map fst doms' = map fst cross_doms \<and>
         map_of doms' slot_A =
           Some (filter (\<lambda>w. \<exists>w'\<in>set [''CAT'', ''CAR'', ''ART'']. w ! 1 = w' ! 0)
                  [''CAT'', ''CAR'', ''ART'']) \<and>
         (\<forall>v. v \<noteq> slot_A \<longrightarrow> map_of doms' v = map_of cross_doms v) \<and>
         (revised \<longleftrightarrow> (\<exists>w\<in>set [''CAT'', ''CAR'', ''ART''].
             \<forall>w'\<in>set [''CAT'', ''CAR'', ''ART'']. w ! 1 \<noteq> w' ! 0)) \<and>
         (revised \<longleftrightarrow> set (the (map_of doms' slot_A)) \<noteq> set [''CAT'', ''CAR'', ''ART'']))"
    by (rule conjunct2 [THEN conjunct1])
  with o d l obtain doms' revised where
    r: "revise cross_sat cross_doms slot_A slot_B = Inr (doms', revised)"
    and m: "map_of doms' slot_A =
           Some (filter (\<lambda>w. \<exists>w'\<in>set [''CAT'', ''CAR'', ''ART'']. w ! 1 = w' ! 0)
                  [''CAT'', ''CAR'', ''ART''])"
    and v: "revised \<longleftrightarrow> (\<exists>w\<in>set [''CAT'', ''CAR'', ''ART''].
             \<forall>w'\<in>set [''CAT'', ''CAR'', ''ART'']. w ! 1 \<noteq> w' ! 0)"
    by blast
  from m have "map_of doms' slot_A = Some [''CAT'', ''CAR'']" by simp
  moreover from v have revised by simp
  ultimately show ?thesis using o r by blast
qed

section \<open>Monotonicity of propagation\<close>

definition shrinks :: "domains \<Rightarrow> domains \<Rightarrow> bool" where
  "shrinks doms' doms \<longleftrightarrow>
     map fst doms' = map fst doms \<and>
     (\<forall>v d'. map_of doms' v = Some d' \<longrightarrow> (\<exists>d. map_of doms v = Some d \<and> set d' \<subseteq> set d))"

lemma shrinks_refl: "shrinks doms doms"
  by (simp add: shrinks_def)

lemma shrinks_trans: "shrinks c b \<Longrightarrow> shrinks b a \<Longrightarrow> shrinks c a"
  unfolding shrinks_def by (metis subset_trans)

lemma map_of_in_keys: "map_of al k = Some v \<Longrightarrow> k \<in> set (map fst al)"
  by (auto dest: map_of_SomeD intro: rev_image_eqI)

lemma revise_result:
  assumes "revise cw doms x y = Inr (doms', revised)"
  shows "doms' = doms \<or>
    (\<exists>dx P. map_of doms x = Some dx \<and> doms' = AList.update x (filter P dx) doms)"
  using assms by (auto simp: revise_def split: option.splits sum.splits)

lemma revise_shrinks:
  assumes "revise cw doms x y = Inr (doms', revised)"
  shows "shrinks doms' doms"
proof -
  from revise_result [OF assms] show ?thesis
  proof
    assume "doms' = doms" then show ?thesis by (simp add: shrinks_refl)
  next
    assume "\<exists>dx P. map_of doms x = Some dx \<and> doms' = AList.update x (filter P dx) doms"
    then obtain dx P where dx: "map_of doms x = Some dx"
      and d': "doms' = AList.update x (filter P dx) doms" by blast
    from dx have "x \<in> set (map fst doms)" by (rule map_of_in_keys)
    then have "map fst doms' = map fst doms" using d' by (simp add: update_keys)
    moreover have "map_of doms' = (map_of doms)(x \<mapsto> filter P dx)"
      using d' by (simp add: update_conv')
    ultimately show ?thesis using dx by (auto simp: shrinks_def)
  qed
qed

lemma ac3_loop_shrinks:
  "ac3_loop cw doms queue = Inr (doms', ok) \<Longrightarrow> shrinks doms' doms"
proof (induction cw doms queue rule: ac3_loop.induct)
  case (1 cw doms)
  then show ?case by (simp add: shrinks_refl)
next
  case (2 cw doms x y queue)
  from "2.prems" obtain d1 revised where r: "revise cw doms x y = Inr (d1, revised)"
    by (auto split: sum.splits)
  note s1 = revise_shrinks [OF r]
  show ?case
  proof (cases revised)
    case False
    with "2.prems" r have "ac3_loop cw d1 queue = Inr (doms', ok)" by simp
    from "2.IH"(2) [OF r refl False this] s1 show ?thesis by (rule shrinks_trans)
  next
    case True
    with "2.prems" r obtain dx where dx: "map_of d1 x = Some dx"
      by (auto split: option.splits)
    show ?thesis
    proof (cases "length dx = 0")
      case True
      with "2.prems" r \<open>revised\<close> dx have "doms' = d1" by simp
      with s1 show ?thesis by simp
    next
      case False
      with "2.prems" r \<open>revised\<close> dx
      have "ac3_loop cw d1 (queue @ map (\<lambda>z. (z, x)) (filter (\<lambda>z. z \<noteq> y) (neighbors cw x)))
              = Inr (doms', ok)" by simp
      from "2.IH"(1) [OF r refl \<open>revised\<close> dx False this] s1 show ?thesis
        by (rule shrinks_trans)
    qed
  qed
qed

text \<open>
  C8. Whenever \<open>ac3\<close> returns, with \<open>True\<close> or with \<open>False\<close> and from any initial arc
  list, the domain store has the keys it had before and the domain of every variable is a
  subset of its domain before the call. The same holds for every call of \<open>revise\<close>: no
  word is ever added to a domain.
\<close>

theorem ac3_monotone:
  "(ac3 cw doms arcs = Inr (doms', ok) \<longrightarrow>
      map fst doms' = map fst doms \<and>
      (\<forall>v d'. map_of doms' v = Some d' \<longrightarrow>
         (\<exists>d. map_of doms v = Some d \<and> set d' \<subseteq> set d))) \<and>
   (revise cw doms x y = Inr (doms'', revised) \<longrightarrow>
      map fst doms'' = map fst doms \<and>
      (\<forall>v d'. map_of doms'' v = Some d' \<longrightarrow>
         (\<exists>d. map_of doms v = Some d \<and> set d' \<subseteq> set d)))"
  using ac3_loop_shrinks [of cw doms _ doms' ok] revise_shrinks [of cw doms x y doms'' revised]
  by (simp add: ac3_def shrinks_def Let_def)



lemma ac3_cross_sat:
  "ac3 cross_sat cross_doms None =
     Inr ([(slot_A, [''CAT'', ''CAR'']), (slot_B, [''ART''])], True)"
  by code_simp

lemma revise_cross_sat:
  "revise cross_sat cross_doms slot_A slot_B =
     Inr ([(slot_A, [''CAT'', ''CAR'']), (slot_B, [''CAT'', ''CAR'', ''ART''])], True)"
  by code_simp

theorem ac3_monotone_witness:
  "ac3 cross_sat cross_doms None =
     Inr ([(slot_A, [''CAT'', ''CAR'']), (slot_B, [''ART''])], True) \<and>
   revise cross_sat cross_doms slot_A slot_B =
     Inr ([(slot_A, [''CAT'', ''CAR'']), (slot_B, [''CAT'', ''CAR'', ''ART''])], True) \<and>
   (\<exists>d. map_of cross_doms slot_B = Some d \<and> set [''ART''] \<subseteq> set d) \<and>
   (\<exists>d. map_of cross_doms slot_A = Some d \<and> set [''CAT'', ''CAR''] \<subseteq> set d)"
proof -
  let ?D1 = "[(slot_A, [''CAT'', ''CAR'']), (slot_B, [''ART''])]"
  let ?D2 = "[(slot_A, [''CAT'', ''CAR'']), (slot_B, [''CAT'', ''CAR'', ''ART''])]"
  note m = ac3_monotone [of cross_sat cross_doms None ?D1 True slot_A slot_B ?D2 True]
  from m ac3_cross_sat
  have 1: "\<forall>v d'. map_of ?D1 v = Some d' \<longrightarrow>
      (\<exists>d. map_of cross_doms v = Some d \<and> set d' \<subseteq> set d)" by blast
  from m revise_cross_sat
  have 2: "\<forall>v d'. map_of ?D2 v = Some d' \<longrightarrow>
      (\<exists>d. map_of cross_doms v = Some d \<and> set d' \<subseteq> set d)" by blast
  have "map_of ?D1 slot_B = Some [''ART'']" by simp
  with 1 have 3: "\<exists>d. map_of cross_doms slot_B = Some d \<and> set [''ART''] \<subseteq> set d"
    by blast
  have "map_of ?D2 slot_A = Some [''CAT'', ''CAR'']" by simp
  with 2 have 4: "\<exists>d. map_of cross_doms slot_A = Some d \<and> set [''CAT'', ''CAR''] \<subseteq> set d"
    by blast
  from ac3_cross_sat revise_cross_sat 3 4 show ?thesis by blast
qed

section \<open>The consistency checker\<close>

text \<open>The two nested loops of \<^verbatim>\<open>consistent\<close> over the keys of the assignment, as one
  loop over the pairs in the same order. The first conflicting pair returns \<^verbatim>\<open>False\<close>.\<close>

fun check_pairs :: "crossword \<Rightarrow> assignment \<Rightarrow> (variable \<times> variable) list \<Rightarrow> error + bool" where
  "check_pairs cw a [] = Inr True"
| "check_pairs cw a ((var1, var2) # rest) =
     (if var1 \<noteq> var2 then
        (case overlaps cw var1 var2 of
           None \<Rightarrow> check_pairs cw a rest
         | Some (i, j) \<Rightarrow>
             (case map_of a var1 of
                None \<Rightarrow> Inl KeyError
              | Some word1 \<Rightarrow>
                  (case letter word1 i of
                     Inl e \<Rightarrow> Inl e
                   | Inr c1 \<Rightarrow>
                       (case map_of a var2 of
                          None \<Rightarrow> Inl KeyError
                        | Some word2 \<Rightarrow>
                            (case letter word2 j of
                               Inl e \<Rightarrow> Inl e
                             | Inr c2 \<Rightarrow>
                                 if c1 \<noteq> c2 then Inr False
                                 else check_pairs cw a rest)))))
      else check_pairs cw a rest)"

definition consistent :: "crossword \<Rightarrow> assignment \<Rightarrow> error + bool" where
  "consistent cw a =
     (if length (remdups (map snd a)) \<noteq> length a then Inr False
      else if list_ex (\<lambda>(var, word). length word \<noteq> var_length var) a then Inr False
      else check_pairs cw a (List.product (map fst a) (map fst a)))"

definition pair_good :: "crossword \<Rightarrow> assignment \<Rightarrow> variable \<Rightarrow> variable \<Rightarrow> bool" where
  "pair_good cw a v1 v2 \<longleftrightarrow>
     (v1 \<noteq> v2 \<longrightarrow> (\<forall>i j. overlaps cw v1 v2 = Some (i, j) \<longrightarrow>
        (\<exists>w1 w2. map_of a v1 = Some w1 \<and> map_of a v2 = Some w2 \<and> agree i j w1 w2)))"

definition pair_safe :: "crossword \<Rightarrow> assignment \<Rightarrow> variable \<Rightarrow> variable \<Rightarrow> bool" where
  "pair_safe cw a v1 v2 \<longleftrightarrow>
     (v1 \<noteq> v2 \<longrightarrow> (\<forall>i j. overlaps cw v1 v2 = Some (i, j) \<longrightarrow>
        (\<exists>w1 w2. map_of a v1 = Some w1 \<and> map_of a v2 = Some w2 \<and>
           i < length w1 \<and> j < length w2)))"

lemma check_pairs_step_True:
  "check_pairs cw a ((v1, v2) # ps) = Inr True \<longleftrightarrow>
     pair_good cw a v1 v2 \<and> check_pairs cw a ps = Inr True"
  by (auto simp: pair_good_def letter_def agree_def split: option.splits)

lemma check_pairs_step_total:
  "pair_safe cw a v1 v2 \<Longrightarrow> check_pairs cw a ps = Inr b \<Longrightarrow>
   \<exists>b'. check_pairs cw a ((v1, v2) # ps) = Inr b'"
  by (auto simp: pair_safe_def letter_def split: option.splits)

lemma check_pairs_good:
  "check_pairs cw a ps = Inr True \<longleftrightarrow> (\<forall>p\<in>set ps. pair_good cw a (fst p) (snd p))"
proof (induction ps)
  case Nil
  show ?case by simp
next
  case (Cons p ps)
  obtain v1 v2 where p: "p = (v1, v2)" by (cases p)
  show ?case unfolding p check_pairs_step_True Cons.IH by simp
qed

lemma check_pairs_safe:
  "\<forall>p\<in>set ps. pair_safe cw a (fst p) (snd p) \<Longrightarrow> \<exists>b. check_pairs cw a ps = Inr b"
proof (induction ps)
  case Nil
  show ?case by auto
next
  case (Cons p ps)
  obtain v1 v2 where p: "p = (v1, v2)" by (cases p)
  from Cons obtain b where "check_pairs cw a ps = Inr b" by auto
  moreover from Cons.prems p have "pair_safe cw a v1 v2" by simp
  ultimately show ?case unfolding p by (rule check_pairs_step_total [rotated])
qed

lemma check_pairs_True:
  "check_pairs cw a ps = Inr True \<longleftrightarrow>
     (\<forall>v1 v2 i j. (v1, v2) \<in> set ps \<and> v1 \<noteq> v2 \<and> overlaps cw v1 v2 = Some (i, j) \<longrightarrow>
           (\<exists>w1 w2. map_of a v1 = Some w1 \<and> map_of a v2 = Some w2 \<and> agree i j w1 w2))"
  unfolding check_pairs_good pair_good_def by fastforce

lemma check_pairs_total:
  "(\<forall>v1 v2 i j. (v1, v2) \<in> set ps \<and> v1 \<noteq> v2 \<and> overlaps cw v1 v2 = Some (i, j) \<longrightarrow>
           (\<exists>w1 w2. map_of a v1 = Some w1 \<and> map_of a v2 = Some w2 \<and>
              i < length w1 \<and> j < length w2)) \<Longrightarrow>
   \<exists>b. check_pairs cw a ps = Inr b"
  by (rule check_pairs_safe) (auto simp: pair_safe_def)

lemma remdups_length_distinct: "length (remdups xs) = length xs \<longleftrightarrow> distinct xs"
  by (metis distinct_remdups length_remdups_eq remdups_id_iff_distinct)

lemma distinct_values_iff:
  assumes "distinct (map fst a)"
  shows "distinct (map snd a) \<longleftrightarrow>
    (\<forall>v1 v2 w. v1 \<noteq> v2 \<and> map_of a v1 = Some w \<longrightarrow> map_of a v2 \<noteq> Some w)"
proof -
  from assms have d: "distinct a" by (simp add: distinct_map)
  have m: "\<And>v w. map_of a v = Some w \<longleftrightarrow> (v, w) \<in> set a"
    using assms by (simp add: map_of_eq_Some_iff)
  have "inj_on snd (set a) \<longleftrightarrow>
     (\<forall>v1 v2 w. v1 \<noteq> v2 \<and> (v1, w) \<in> set a \<longrightarrow> (v2, w) \<notin> set a)"
  proof
    assume i: "inj_on snd (set a)"
    show "\<forall>v1 v2 w. v1 \<noteq> v2 \<and> (v1, w) \<in> set a \<longrightarrow> (v2, w) \<notin> set a"
    proof (intro allI impI notI)
      fix v1 v2 w
      assume h: "v1 \<noteq> v2 \<and> (v1, w) \<in> set a" and h2: "(v2, w) \<in> set a"
      from h h2 have "(v1, w) = (v2, w)"
        using inj_onD [OF i, of "(v1, w)" "(v2, w)"] by simp
      with h show False by simp
    qed
  next
    assume r: "\<forall>v1 v2 w. v1 \<noteq> v2 \<and> (v1, w) \<in> set a \<longrightarrow> (v2, w) \<notin> set a"
    show "inj_on snd (set a)"
    proof (rule inj_onI)
      fix p q
      assume "p \<in> set a" "q \<in> set a" "snd p = snd q"
      with r show "p = q" by (cases p, cases q) auto
    qed
  qed
  with d show ?thesis by (simp add: distinct_map m)
qed


text \<open>
  The consistency of an assignment in the words of the specification, on the mapping from
  variables to words: (1) no word is used by two variables, (2) every word has the length of
  its variable, (3) for every two assigned variables with an overlap \<open>(i, j)\<close> the letter
  \<open>i\<close> of the first word and the letter \<open>j\<close> of the second exist and are equal.
  Variables outside the mapping are not mentioned.
\<close>

definition consistent_spec :: "crossword \<Rightarrow> (variable \<rightharpoonup> string) \<Rightarrow> bool" where
  "consistent_spec cw m \<longleftrightarrow>
     (\<forall>v1 v2 w. v1 \<noteq> v2 \<and> m v1 = Some w \<longrightarrow> m v2 \<noteq> Some w) \<and>
     (\<forall>v w. m v = Some w \<longrightarrow> length w = var_length v) \<and>
     (\<forall>v1 v2 w1 w2 i j.
        v1 \<noteq> v2 \<and> m v1 = Some w1 \<and> m v2 = Some w2 \<and> overlaps cw v1 v2 = Some (i, j) \<longrightarrow>
        i < length w1 \<and> j < length w2 \<and> w1 ! i = w2 ! j)"

lemma in_keys_map_of: "k \<in> set (map fst al) \<Longrightarrow> \<exists>v. map_of al k = Some v"
  by (induction al) auto

lemma lengths_ok_iff:
  assumes "distinct (map fst a)"
  shows "\<not> list_ex (\<lambda>(var, word). length word \<noteq> var_length var) a \<longleftrightarrow>
    (\<forall>v w. map_of a v = Some w \<longrightarrow> length w = var_length v)"
  using assms by (auto simp: list_ex_iff map_of_eq_Some_iff)

lemma pairs_ok_iff:
  "(\<forall>v1 v2 i j. (v1, v2) \<in> set (List.product (map fst a) (map fst a)) \<and> v1 \<noteq> v2 \<and>
        overlaps cw v1 v2 = Some (i, j) \<longrightarrow>
           (\<exists>w1 w2. map_of a v1 = Some w1 \<and> map_of a v2 = Some w2 \<and> agree i j w1 w2)) \<longleftrightarrow>
   (\<forall>v1 v2 w1 w2 i j.
        v1 \<noteq> v2 \<and> map_of a v1 = Some w1 \<and> map_of a v2 = Some w2 \<and>
        overlaps cw v1 v2 = Some (i, j) \<longrightarrow>
        i < length w1 \<and> j < length w2 \<and> w1 ! i = w2 ! j)"
  (is "?L \<longleftrightarrow> ?R")
proof
  assume l: ?L
  show ?R
  proof (intro allI impI)
    fix v1 v2 w1 w2 i j
    assume h: "v1 \<noteq> v2 \<and> map_of a v1 = Some w1 \<and> map_of a v2 = Some w2 \<and>
        overlaps cw v1 v2 = Some (i, j)"
    then have "v1 \<in> set (map fst a)" "v2 \<in> set (map fst a)"
      using map_of_in_keys [of a v1 w1] map_of_in_keys [of a v2 w2] by simp_all
    then have "(v1, v2) \<in> set (List.product (map fst a) (map fst a))" by simp
    with l h have "\<exists>w1 w2. map_of a v1 = Some w1 \<and> map_of a v2 = Some w2 \<and> agree i j w1 w2"
      by blast
    with h show "i < length w1 \<and> j < length w2 \<and> w1 ! i = w2 ! j"
      by (auto simp: agree_def)
  qed
next
  assume r: ?R
  show ?L
  proof (intro allI impI)
    fix v1 v2 i j
    assume h: "(v1, v2) \<in> set (List.product (map fst a) (map fst a)) \<and> v1 \<noteq> v2 \<and>
        overlaps cw v1 v2 = Some (i, j)"
    then have m: "(v1, v2) \<in> set (List.product (map fst a) (map fst a))"
      and ne: "v1 \<noteq> v2" and ov: "overlaps cw v1 v2 = Some (i, j)" by simp_all
    from m obtain w1 w2 where w: "map_of a v1 = Some w1" "map_of a v2 = Some w2"
      using in_keys_map_of [of v1 a] in_keys_map_of [of v2 a] by auto
    with r ne ov have "i < length w1 \<and> j < length w2 \<and> w1 ! i = w2 ! j" by blast
    with w show "\<exists>w1 w2. map_of a v1 = Some w1 \<and> map_of a v2 = Some w2 \<and> agree i j w1 w2"
      by (simp add: agree_def)
  qed
qed

lemma consistent_True_iff:
  assumes "distinct (map fst a)"
  shows "consistent cw a = Inr True \<longleftrightarrow> consistent_spec cw (map_of a)"
proof -
  have 1: "length (remdups (map snd a)) = length a \<longleftrightarrow>
      (\<forall>v1 v2 w. v1 \<noteq> v2 \<and> map_of a v1 = Some w \<longrightarrow> map_of a v2 \<noteq> Some w)"
    using remdups_length_distinct [of "map snd a"] distinct_values_iff [OF assms] by simp
  note 2 = lengths_ok_iff [OF assms]
  note 3 = check_pairs_True [of cw a "List.product (map fst a) (map fst a)"]
  show ?thesis
    unfolding consistent_def consistent_spec_def 1 [symmetric] 2 [symmetric]
      pairs_ok_iff [symmetric] 3 [symmetric]
    by simp
qed

text \<open>
  C6. For every assignment (a dictionary: no key twice), partial or complete,
  \<open>consistent\<close> returns \<open>True\<close> if and only if the assigned words are pairwise distinct,
  every assigned word has the length of its variable, and for every two assigned variables
  with an overlap \<open>(i, j)\<close> the letter \<open>i\<close> of the first word equals the letter \<open>j\<close> of the
  second. Only assigned variables are looked at.
\<close>

theorem consistent_characterization:
  assumes "distinct (map fst a)"
  shows "consistent cw a = Inr True \<longleftrightarrow> consistent_spec cw (map_of a)"
  using assms by (rule consistent_True_iff)

definition cross_fill :: assignment where
  "cross_fill = [(slot_A, ''CAR''), (slot_B, ''ART'')]"

lemma consistent_cross_fill: "consistent cross_sat cross_fill = Inr True"
  by code_simp

theorem consistent_characterization_witness:
  "distinct (map fst cross_fill) \<and> consistent cross_sat cross_fill = Inr True \<and>
   length ''CAR'' = var_length slot_A \<and> ''CAR'' ! 1 = ''ART'' ! 0"
proof -
  have d: "distinct (map fst cross_fill)" by (simp add: cross_fill_def)
  from consistent_characterization [OF d, of cross_sat] consistent_cross_fill
  have s: "consistent_spec cross_sat (map_of cross_fill)" by simp
  have m: "map_of cross_fill slot_A = Some ''CAR''" "map_of cross_fill slot_B = Some ''ART''"
    by (simp_all add: cross_fill_def)
  have o: "overlaps cross_sat slot_A slot_B = Some (1, 0)"
    by (simp add: cross_sat_def cross_overlaps_def)
  from s m have "length ''CAR'' = var_length slot_A"
    unfolding consistent_spec_def by blast
  moreover from s m o have "''CAR'' ! 1 = ''ART'' ! 0"
    unfolding consistent_spec_def using slots_distinct(1) by blast
  ultimately show ?thesis using d consistent_cross_fill by blast
qed

text \<open>
  C10. On an instance whose recorded overlaps \<open>(i, j)\<close> lie inside the two variables
  (\<open>i\<close> below the length of the first, \<open>j\<close> below the length of the second),
  \<open>consistent\<close> never raises, whatever words the assignment contains: it returns a
  Boolean. An assigned word whose length differs from its variable's makes it return
  \<open>False\<close>, which happens at the length check, before any letter is read.
\<close>

theorem consistent_never_out_of_bounds:
  assumes "\<forall>x y i j. overlaps cw x y = Some (i, j) \<longrightarrow> i < var_length x \<and> j < var_length y"
  shows "(\<exists>b. consistent cw a = Inr b) \<and>
    ((\<exists>(v, w)\<in>set a. length w \<noteq> var_length v) \<longrightarrow> consistent cw a = Inr False)"
proof (cases "list_ex (\<lambda>(var, word). length word \<noteq> var_length var) a")
  case True
  then show ?thesis by (auto simp: consistent_def list_ex_iff)
next
  case False
  then have len: "\<And>v w. (v, w) \<in> set a \<Longrightarrow> length w = var_length v"
    by (auto simp: list_ex_iff)
  have "\<exists>b. check_pairs cw a (List.product (map fst a) (map fst a)) = Inr b"
  proof (rule check_pairs_total, intro allI impI)
    fix v1 v2 i j
    assume h: "(v1, v2) \<in> set (List.product (map fst a) (map fst a)) \<and> v1 \<noteq> v2 \<and>
        overlaps cw v1 v2 = Some (i, j)"
    then have m: "(v1, v2) \<in> set (List.product (map fst a) (map fst a))"
      and ov: "overlaps cw v1 v2 = Some (i, j)" by simp_all
    from m obtain w1 w2 where w: "map_of a v1 = Some w1" "map_of a v2 = Some w2"
      using in_keys_map_of [of v1 a] in_keys_map_of [of v2 a] by auto
    then have "length w1 = var_length v1" "length w2 = var_length v2"
      by (auto dest: map_of_SomeD intro: len)
    with assms ov w
    show "\<exists>w1 w2. map_of a v1 = Some w1 \<and> map_of a v2 = Some w2 \<and>
        i < length w1 \<and> j < length w2" by auto
  qed
  moreover from False have "\<not> (\<exists>(v, w)\<in>set a. length w \<noteq> var_length v)"
    by (auto simp: list_ex_iff)
  ultimately show ?thesis by (auto simp: consistent_def)
qed

lemma cross_overlaps_in_range:
  "\<forall>x y i j. overlaps cross_sat x y = Some (i, j) \<longrightarrow> i < var_length x \<and> j < var_length y"
  by (auto simp: cross_sat_def cross_overlaps_def slot_A_def slot_B_def split: if_splits)

theorem consistent_never_out_of_bounds_witness:
  "(\<exists>b. consistent cross_sat [(slot_A, ''C''), (slot_B, ''ART'')] = Inr b) \<and>
   consistent cross_sat [(slot_A, ''C''), (slot_B, ''ART'')] = Inr False"
  using consistent_never_out_of_bounds [OF cross_overlaps_in_range,
      of "[(slot_A, ''C''), (slot_B, ''ART'')]"]
  by (auto simp: slot_A_def)

section \<open>Heuristics and backtracking search\<close>

definition assignment_complete :: "crossword \<Rightarrow> assignment \<Rightarrow> bool" where
  "assignment_complete cw a = list_all (\<lambda>var. var \<in> set (map fst a)) (variables cw)"

text \<open>Applying a function that may raise to the elements of a list, from left to right; the
  first exception ends the evaluation.\<close>

fun mapE :: "('a \<Rightarrow> error + 'b) \<Rightarrow> 'a list \<Rightarrow> error + 'b list" where
  "mapE f [] = Inr []"
| "mapE f (x # xs) =
     (case f x of
        Inl e \<Rightarrow> Inl e
      | Inr y \<Rightarrow> (case mapE f xs of Inl e \<Rightarrow> Inl e | Inr ys \<Rightarrow> Inr (y # ys)))"

text \<open>The key of \<^verbatim>\<open>min\<close> in \<^verbatim>\<open>select_unassigned_variable\<close>: a Python tuple of two
  integers, compared lexicographically.\<close>

definition select_key :: "crossword \<Rightarrow> domains \<Rightarrow> variable \<Rightarrow> error + (nat \<times> int)" where
  "select_key cw doms var =
     (case map_of doms var of
        None \<Rightarrow> Inl KeyError
      | Some d \<Rightarrow> Inr (length d, - int (length (neighbors cw var))))"

text \<open>\<^verbatim>\<open>min(unassigned, key=...)\<close> returns the first element whose key is minimal, as
  \<open>arg_min_list\<close> does.\<close>

definition select_unassigned_variable ::
  "crossword \<Rightarrow> domains \<Rightarrow> assignment \<Rightarrow> error + variable option" where
  "select_unassigned_variable cw doms a =
     (let unassigned = filter (\<lambda>var. var \<notin> set (map fst a)) (variables cw) in
      if unassigned = [] then Inr None
      else
        (case mapE (select_key cw doms) unassigned of
           Inl e \<Rightarrow> Inl e
         | Inr keys \<Rightarrow> Inr (Some (fst (arg_min_list snd (zip unassigned keys))))))"

text \<open>The innermost loop of \<^verbatim>\<open>order_domain_values\<close>, over the words of one neighbour's
  domain, and the loop over the unassigned neighbours; \<^verbatim>\<open>count\<close> is the running
  counter.\<close>

fun count_conflicts :: "nat \<Rightarrow> nat \<Rightarrow> string \<Rightarrow> string list \<Rightarrow> nat \<Rightarrow> error + nat" where
  "count_conflicts i j word [] count = Inr count"
| "count_conflicts i j word (neighbor_word # rest) count =
     (case letter word i of
        Inl e \<Rightarrow> Inl e
      | Inr c1 \<Rightarrow>
          (case letter neighbor_word j of
             Inl e \<Rightarrow> Inl e
           | Inr c2 \<Rightarrow> count_conflicts i j word rest (if c1 \<noteq> c2 then count + 1 else count)))"

fun count_neighbors ::
  "crossword \<Rightarrow> domains \<Rightarrow> variable \<Rightarrow> string \<Rightarrow> variable list \<Rightarrow> nat \<Rightarrow> error + nat" where
  "count_neighbors cw doms var word [] count = Inr count"
| "count_neighbors cw doms var word (neighbor # rest) count =
     (case overlaps cw var neighbor of
        None \<Rightarrow> count_neighbors cw doms var word rest count
      | Some (i, j) \<Rightarrow>
          (case map_of doms neighbor of
             None \<Rightarrow> Inl KeyError
           | Some dn \<Rightarrow>
               (case count_conflicts i j word dn count of
                  Inl e \<Rightarrow> Inl e
                | Inr count' \<Rightarrow> count_neighbors cw doms var word rest count')))"

text \<open>\<^verbatim>\<open>sorted\<close> is stable, as \<open>sort_key\<close> is; the dictionary \<^verbatim>\<open>constraints\<close> is the
  list of the counts, in the order of the words.\<close>

definition order_domain_values ::
  "crossword \<Rightarrow> domains \<Rightarrow> variable \<Rightarrow> assignment \<Rightarrow> error + string list" where
  "order_domain_values cw doms var a =
     (let unassigned_neighbors = filter (\<lambda>n. n \<notin> set (map fst a)) (neighbors cw var) in
      case map_of doms var of
        None \<Rightarrow> Inl KeyError
      | Some dv \<Rightarrow>
          (case mapE (\<lambda>word. count_neighbors cw doms var word unassigned_neighbors 0) dv of
             Inl e \<Rightarrow> Inl e
           | Inr counts \<Rightarrow> Inr (map fst (sort_key snd (zip dv counts)))))"


lemma mapE_Inr:
  "mapE f xs = Inr ys \<Longrightarrow> list_all2 (\<lambda>x y. f x = Inr y) xs ys"
  by (induction xs arbitrary: ys) (auto split: sum.splits)

lemma mapE_total:
  "\<forall>x\<in>set xs. \<exists>y. f x = Inr y \<Longrightarrow> \<exists>ys. mapE f xs = Inr ys"
  by (induction xs) auto

lemma complete_iff_no_unassigned:
  "assignment_complete cw a \<longleftrightarrow>
     filter (\<lambda>var. var \<notin> set (map fst a)) (variables cw) = []"
  by (auto simp: assignment_complete_def list_all_iff filter_empty_conv)

lemma select_None_iff:
  "select_unassigned_variable cw doms a = Inr None \<longleftrightarrow> assignment_complete cw a"
  by (auto simp: select_unassigned_variable_def complete_iff_no_unassigned Let_def
      split: sum.splits)

lemma select_Some_min:
  assumes "select_unassigned_variable cw doms a = Inr (Some v)"
  shows "v \<in> set (variables cw) \<and> v \<notin> set (map fst a) \<and>
    (\<exists>kv. select_key cw doms v = Inr kv \<and>
       (\<forall>u\<in>set (variables cw). u \<notin> set (map fst a) \<longrightarrow>
          (\<exists>ku. select_key cw doms u = Inr ku \<and> kv \<le> ku)))"
proof -
  let ?un = "filter (\<lambda>var. var \<notin> set (map fst a)) (variables cw)"
  from assms have ne: "?un \<noteq> []"
    by (auto simp: select_unassigned_variable_def Let_def split: if_splits)
  with assms obtain keys where k: "mapE (select_key cw doms) ?un = Inr keys"
    and v: "v = fst (arg_min_list snd (zip ?un keys))"
    by (auto simp: select_unassigned_variable_def Let_def split: sum.splits)
  note l2 = mapE_Inr [OF k]
  then have len: "length keys = length ?un" by (simp add: list_all2_lengthD)
  let ?zs = "zip ?un keys"
  let ?p = "arg_min_list snd ?zs"
  from ne len have zne: "?zs \<noteq> []" by (cases ?un; cases keys) auto
  have good: "\<And>q. q \<in> set ?zs \<Longrightarrow> select_key cw doms (fst q) = Inr (snd q)"
    using l2 by (auto simp: list_all2_iff)
  from zne have pin: "?p \<in> set ?zs" by (rule arg_min_list_in)
  then have "fst ?p \<in> set ?un" by (metis prod.collapse set_zip_leftD)
  with v have 1: "v \<in> set (variables cw) \<and> v \<notin> set (map fst a)" by simp
  from good [OF pin] v have 2: "select_key cw doms v = Inr (snd ?p)" by simp
  have 3: "\<exists>ku. select_key cw doms u = Inr ku \<and> snd ?p \<le> ku"
    if "u \<in> set (variables cw)" "u \<notin> set (map fst a)" for u
  proof -
    from that have "u \<in> set ?un" by simp
    with len obtain ku where q: "(u, ku) \<in> set ?zs"
      by (metis fst_conv in_set_impl_in_set_zip1 prod.collapse)
    from f_arg_min_list_f [OF zne, of snd] have "snd ?p = Min (snd ` set ?zs)" .
    moreover from q have "Min (snd ` set ?zs) \<le> ku"
      by (intro Min_le) (auto intro: rev_image_eqI)
    ultimately show ?thesis using good [OF q] by auto
  qed
  from 1 2 3 show ?thesis by blast
qed

lemma select_total:
  assumes "set (variables cw) \<subseteq> set (map fst doms)"
  shows "\<exists>r. select_unassigned_variable cw doms a = Inr r"
proof -
  let ?un = "filter (\<lambda>var. var \<notin> set (map fst a)) (variables cw)"
  have "\<forall>x\<in>set ?un. \<exists>y. select_key cw doms x = Inr y"
  proof
    fix x assume "x \<in> set ?un"
    then have "x \<in> set (variables cw)" by simp
    with assms have "x \<in> set (map fst doms)" by (rule subsetD)
    then obtain d where "map_of doms x = Some d" using in_keys_map_of [of x doms] by blast
    then show "\<exists>y. select_key cw doms x = Inr y" by (simp add: select_key_def)
  qed
  from mapE_total [OF this] obtain ks where ks: "mapE (select_key cw doms) ?un = Inr ks"
    by blast
  show ?thesis
  proof (cases "?un = []")
    case True
    then have "select_unassigned_variable cw doms a = Inr None"
      by (simp add: select_unassigned_variable_def)
    then show ?thesis by blast
  next
    case False
    with ks have "select_unassigned_variable cw doms a =
        Inr (Some (fst (arg_min_list snd (zip ?un ks))))"
      by (simp add: select_unassigned_variable_def)
    then show ?thesis by blast
  qed
qed

text \<open>
  C9. When every variable of the instance has an entry in the domain store (as the
  constructor establishes), \<open>select_unassigned_variable\<close> returns \<open>None\<close> if and only if
  every variable is assigned; otherwise it returns an unassigned variable \<open>v\<close> of the
  instance whose key (size of the domain, minus the number of neighbours) is
  lexicographically smallest among the unassigned variables: no unassigned \<open>u\<close> has a
  smaller domain, and none with a domain of the same size has more neighbours.
\<close>

theorem select_unassigned_variable_contract:
  assumes "set (variables cw) \<subseteq> set (map fst doms)"
  shows "\<exists>r. select_unassigned_variable cw doms a = Inr r \<and>
     (r = None \<longleftrightarrow> (\<forall>v\<in>set (variables cw). v \<in> set (map fst a))) \<and>
     (\<forall>v. r = Some v \<longrightarrow>
        v \<in> set (variables cw) \<and> v \<notin> set (map fst a) \<and>
        (\<forall>u dv du. u \<in> set (variables cw) \<and> u \<notin> set (map fst a) \<and>
             map_of doms v = Some dv \<and> map_of doms u = Some du \<longrightarrow>
             length dv < length du \<or>
             (length dv = length du \<and> length (neighbors cw u) \<le> length (neighbors cw v))))"
proof -
  from select_total [OF assms] obtain r where r: "select_unassigned_variable cw doms a = Inr r"
    by blast
  have n: "r = None \<longleftrightarrow> (\<forall>v\<in>set (variables cw). v \<in> set (map fst a))"
    using select_None_iff [of cw doms a] r
    by (simp add: assignment_complete_def list_all_iff)
  have m: "v \<in> set (variables cw) \<and> v \<notin> set (map fst a) \<and>
        (\<forall>u dv du. u \<in> set (variables cw) \<and> u \<notin> set (map fst a) \<and>
             map_of doms v = Some dv \<and> map_of doms u = Some du \<longrightarrow>
             length dv < length du \<or>
             (length dv = length du \<and> length (neighbors cw u) \<le> length (neighbors cw v)))"
    if "r = Some v" for v
  proof -
    from r that have s: "select_unassigned_variable cw doms a = Inr (Some v)" by simp
    note sm = select_Some_min [OF s]
    then obtain kv where kv: "select_key cw doms v = Inr kv"
      and le: "\<And>u. u \<in> set (variables cw) \<Longrightarrow> u \<notin> set (map fst a) \<Longrightarrow>
          \<exists>ku. select_key cw doms u = Inr ku \<and> kv \<le> ku" by blast
    have "length dv < length du \<or>
        (length dv = length du \<and> length (neighbors cw u) \<le> length (neighbors cw v))"
      if u: "u \<in> set (variables cw)" "u \<notin> set (map fst a)"
        and d: "map_of doms v = Some dv" "map_of doms u = Some du" for u dv du
    proof -
      from le [OF u] obtain ku where "select_key cw doms u = Inr ku" "kv \<le> ku" by blast
      with kv d show ?thesis by (auto simp: select_key_def less_eq_prod_def)
    qed
    with sm show ?thesis by blast
  qed
  from r n m show ?thesis by blast
qed

definition cross_pruned :: domains where
  "cross_pruned = [(slot_A, [''CAT'', ''CAR'']), (slot_B, [''ART''])]"

lemma select_cross_pruned:
  "select_unassigned_variable cross_sat cross_pruned [] = Inr (Some slot_B)"
  by code_simp

theorem select_unassigned_variable_contract_witness:
  "set (variables cross_sat) \<subseteq> set (map fst cross_pruned) \<and>
   select_unassigned_variable cross_sat cross_pruned [] = Inr (Some slot_B) \<and>
   slot_B \<in> set (variables cross_sat) \<and>
   (length [''ART''] < length [''CAT'', ''CAR''] \<or>
    (length [''ART''] = length [''CAT'', ''CAR''] \<and>
     length (neighbors cross_sat slot_A) \<le> length (neighbors cross_sat slot_B)))"
proof -
  have s: "set (variables cross_sat) \<subseteq> set (map fst cross_pruned)"
    by (simp add: cross_sat_def cross_pruned_def)
  from select_unassigned_variable_contract [OF s, of "[]"] select_cross_pruned
  have m: "slot_B \<in> set (variables cross_sat) \<and>
        (\<forall>u dv du. u \<in> set (variables cross_sat) \<and> u \<notin> set (map fst ([] :: assignment)) \<and>
             map_of cross_pruned slot_B = Some dv \<and> map_of cross_pruned u = Some du \<longrightarrow>
             length dv < length du \<or>
             (length dv = length du \<and>
              length (neighbors cross_sat u) \<le> length (neighbors cross_sat slot_B)))"
    by auto
  have "slot_A \<in> set (variables cross_sat)" by (simp add: cross_sat_def)
  moreover have "map_of cross_pruned slot_B = Some [''ART'']"
    "map_of cross_pruned slot_A = Some [''CAT'', ''CAR'']"
    by (simp_all add: cross_pruned_def)
  ultimately have "length [''ART''] < length [''CAT'', ''CAR''] \<or>
    (length [''ART''] = length [''CAT'', ''CAR''] \<and>
     length (neighbors cross_sat slot_A) \<le> length (neighbors cross_sat slot_B))"
    using m by simp
  with s select_cross_pruned m show ?thesis by blast
qed

lemma keys_update: "fst ` set (AList.update k v al) = insert k (fst ` set al)"
  by (simp add: dom_update)

lemma keys_delete: "fst ` set (AList.delete k al) = fst ` set al - {k}"
  by (induction al) auto

lemma delete_update_fresh:
  "k \<notin> set (map fst al) \<Longrightarrow> AList.delete k (AList.update k v al) = al"
  by (induction al) auto

lemma select_Some_unassigned:
  "select_unassigned_variable cw doms a = Inr (Some v) \<Longrightarrow>
   v \<in> set (variables cw) \<and> v \<notin> set (map fst a)"
  using select_Some_min by blast

text \<open>
  \<^verbatim>\<open>backtrack\<close> mutates the dictionary \<^verbatim>\<open>assignment\<close> in place: the model takes the
  dictionary and returns the result together with the dictionary as the call leaves it. A
  result other than \<^verbatim>\<open>None\<close> is that same dictionary. \<open>try_values\<close> is the
  \<^verbatim>\<open>for value in ...\<close> loop. When \<^verbatim>\<open>select_unassigned_variable\<close> returns
  \<^verbatim>\<open>None\<close>, the next statement looks \<^verbatim>\<open>None\<close> up among the variables and raises.
\<close>

function backtrack ::
    "crossword \<Rightarrow> domains \<Rightarrow> assignment \<Rightarrow> error + (assignment option \<times> assignment)"
  and try_values ::
    "crossword \<Rightarrow> domains \<Rightarrow> variable \<Rightarrow> string list \<Rightarrow> assignment
       \<Rightarrow> error + (assignment option \<times> assignment)" where
  "backtrack cw doms a =
     (if assignment_complete cw a then Inr (Some a, a)
      else
        (case select_unassigned_variable cw doms a of
           Inl e \<Rightarrow> Inl e
         | Inr None \<Rightarrow> Inl KeyError
         | Inr (Some var) \<Rightarrow>
             (case order_domain_values cw doms var a of
                Inl e \<Rightarrow> Inl e
              | Inr vals \<Rightarrow> try_values cw doms var vals a)))"
| "try_values cw doms var [] a = Inr (None, a)"
| "try_values cw doms var (val # rest) a =
     (case consistent cw (AList.update var val a) of
        Inl e \<Rightarrow> Inl e
      | Inr ok \<Rightarrow>
          if ok then
            (case backtrack cw doms (AList.update var val a) of
               Inl e \<Rightarrow> Inl e
             | Inr (Some result, a2) \<Rightarrow> Inr (Some result, a2)
             | Inr (None, a2) \<Rightarrow>
                 if var \<in> set (map fst a2)
                 then try_values cw doms var rest (AList.delete var a2)
                 else Inl KeyError)
          else try_values cw doms var rest (AList.delete var (AList.update var val a)))"
  by pat_completeness auto


lemma backtrack_undo_partial:
  "backtrack_try_values_dom (Inl (cw, doms, a)) \<Longrightarrow>
     (\<forall>a2. backtrack cw doms a = Inr (None, a2) \<longrightarrow> a2 = a)"
  "backtrack_try_values_dom (Inr (cw, doms, var, vals, a)) \<Longrightarrow>
     (var \<notin> set (map fst a) \<longrightarrow>
       (\<forall>a2. try_values cw doms var vals a = Inr (None, a2) \<longrightarrow> a2 = a))"
proof (induct rule: backtrack_try_values.pinduct)
  case (1 cw doms a)
  show ?case
  proof (intro allI impI)
    fix a2
    assume r: "backtrack cw doms a = Inr (None, a2)"
    from r 1(1) have nc: "\<not> assignment_complete cw a"
      by (auto simp: backtrack.psimps)
    with r 1(1) obtain var where sel: "select_unassigned_variable cw doms a = Inr (Some var)"
      by (auto simp: backtrack.psimps split: sum.splits option.splits)
    with r 1(1) nc obtain vals where ord: "order_domain_values cw doms var a = Inr vals"
      by (auto simp: backtrack.psimps split: sum.splits)
    with r 1(1) nc sel have t: "try_values cw doms var vals a = Inr (None, a2)"
      by (simp add: backtrack.psimps)
    from select_Some_unassigned [OF sel] have "var \<notin> set (map fst a)" by simp
    with 1(2) [OF nc sel refl ord] t show "a2 = a" by blast
  qed
next
  case (2 cw doms var a)
  then show ?case by (simp add: try_values.psimps)
next
  case (3 cw doms var val rest a)
  show ?case
  proof (intro allI impI)
    fix a2
    assume fresh: "var \<notin> set (map fst a)"
      and r: "try_values cw doms var (val # rest) a = Inr (None, a2)"
    let ?a1 = "AList.update var val a"
    have undo: "AList.delete var ?a1 = a" using fresh by (rule delete_update_fresh)
    from r 3(1) obtain ok where c: "consistent cw ?a1 = Inr ok"
      by (auto simp: try_values.psimps split: sum.splits)
    show "a2 = a"
    proof (cases ok)
      case False
      with r 3(1) c have "try_values cw doms var rest (AList.delete var ?a1) = Inr (None, a2)"
        by (simp add: try_values.psimps)
      with 3(4) [OF c False] fresh undo show ?thesis by simp
    next
      case True
      with r 3(1) c obtain res a3 where b: "backtrack cw doms ?a1 = Inr (res, a3)"
        by (auto simp: try_values.psimps split: sum.splits)
      with r 3(1) c True have rn: "res = None"
        by (auto simp: try_values.psimps split: option.splits if_splits)
      with 3(2) [OF c True] b have a3: "a3 = ?a1" by blast
      from r 3(1) c True b rn have k: "var \<in> set (map fst a3)"
        by (auto simp: try_values.psimps split: if_splits)
      with r 3(1) c True b rn
      have "try_values cw doms var rest (AList.delete var a3) = Inr (None, a2)"
        by (simp add: try_values.psimps)
      moreover from 3(3) [OF c True b refl rn k]
      have "var \<notin> set (map fst (AList.delete var a3)) \<longrightarrow>
        (\<forall>a2. try_values cw doms var rest (AList.delete var a3) = Inr (None, a2) \<longrightarrow>
           a2 = AList.delete var a3)" using rn by simp
      ultimately show ?thesis using a3 undo fresh by simp
    qed
  qed
qed

text \<open>The search terminates: every call of \<open>backtrack\<close> from the loop has one more
  variable of the instance assigned, and the loop goes through a finite list.\<close>

definition unassigned_count :: "crossword \<Rightarrow> assignment \<Rightarrow> nat" where
  "unassigned_count cw a = card (set (variables cw) - set (map fst a))"

lemma unassigned_count_update:
  "unassigned_count cw (AList.update var val a) =
     card (set (variables cw) - set (map fst a) - {var})"
proof -
  have "set (variables cw) - insert var (fst ` set a) = set (variables cw) - fst ` set a - {var}"
    by blast
  then show ?thesis by (simp add: unassigned_count_def keys_update)
qed

lemma unassigned_count_delete_update:
  "unassigned_count cw (AList.update var val' (AList.delete var (AList.update var val a))) =
     unassigned_count cw (AList.update var val a)"
  by (simp add: unassigned_count_def keys_update keys_delete)

lemma unassigned_count_less:
  assumes "var \<in> set (variables cw)" "var \<notin> set (map fst a)"
  shows "unassigned_count cw (AList.update var val a) < unassigned_count cw a"
proof -
  have "var \<in> set (variables cw) - set (map fst a)" using assms by simp
  then have "card (set (variables cw) - set (map fst a) - {var}) <
      card (set (variables cw) - set (map fst a))"
    by (rule card_Diff1_less [rotated]) simp
  moreover have "unassigned_count cw a = card (set (variables cw) - set (map fst a))"
    by (simp only: unassigned_count_def)
  ultimately show ?thesis by (simp only: unassigned_count_update)
qed

termination backtrack
proof (relation "measures
    [case_sum (\<lambda>(cw, doms, a). unassigned_count cw a)
       (\<lambda>(cw, doms, var, vals, a). unassigned_count cw (AList.update var [] a)),
     case_sum (\<lambda>_. 0) (\<lambda>_. 1),
     case_sum (\<lambda>_. 0) (\<lambda>(cw, doms, var, vals, a). length vals)]", goal_cases)
  case 1
  show ?case by simp
next
  case (2 cw doms a r var vals)
  then have "select_unassigned_variable cw doms a = Inr (Some var)" by simp
  from select_Some_unassigned [OF this]
  have "var \<in> set (variables cw)" "var \<notin> set (map fst a)" by simp_all
  from unassigned_count_less [OF this] show ?case by simp
next
  case (3 cw doms var val rest a ok)
  have "unassigned_count cw (AList.update var val a) =
      unassigned_count cw (AList.update var [] a)"
    by (simp only: unassigned_count_update)
  then show ?case by simp
next
  case (4 cw doms var val rest a ok r res a2)
  from 4(3,4,5) have "backtrack cw doms (AList.update var val a) = Inr (None, a2)" by simp
  with backtrack_undo_partial(1) [OF 4(7)] have "a2 = AList.update var val a" by blast
  moreover have "unassigned_count cw (AList.update var [] a) =
      unassigned_count cw (AList.update var val a)"
    by (simp only: unassigned_count_update)
  ultimately show ?case by (simp add: unassigned_count_delete_update)
next
  case (5 cw doms var val rest a ok)
  have "unassigned_count cw (AList.update var [] a) =
      unassigned_count cw (AList.update var val a)"
    by (simp only: unassigned_count_update)
  then show ?case by (simp add: unassigned_count_delete_update)
qed


declare backtrack.simps [simp del]

lemma backtrack_undo_both:
  "\<forall>a2. backtrack cw doms a = Inr (None, a2) \<longrightarrow> a2 = a"
  "var \<notin> set (map fst a) \<longrightarrow>
     (\<forall>a2. try_values cw doms var vals a = Inr (None, a2) \<longrightarrow> a2 = a)"
proof (induct cw doms a and cw doms var vals a rule: backtrack_try_values.induct)
  case (1 cw doms a)
  show ?case
  proof (intro allI impI)
    fix a2
    assume r: "backtrack cw doms a = Inr (None, a2)"
    then have nc: "\<not> assignment_complete cw a"
      by (auto simp: backtrack.simps)
    with r obtain var where sel: "select_unassigned_variable cw doms a = Inr (Some var)"
      by (auto simp: backtrack.simps split: sum.splits option.splits)
    with r nc obtain vals where ord: "order_domain_values cw doms var a = Inr vals"
      by (auto simp: backtrack.simps split: sum.splits)
    with r nc sel have t: "try_values cw doms var vals a = Inr (None, a2)"
      by (simp add: backtrack.simps)
    from select_Some_unassigned [OF sel] have "var \<notin> set (map fst a)" by simp
    with 1 [OF nc sel refl ord] t show "a2 = a" by blast
  qed
next
  case (2 cw doms var a)
  then show ?case by simp
next
  case (3 cw doms var val rest a)
  show ?case
  proof (intro allI impI)
    fix a2
    assume fresh: "var \<notin> set (map fst a)"
      and r: "try_values cw doms var (val # rest) a = Inr (None, a2)"
    let ?a1 = "AList.update var val a"
    have undo: "AList.delete var ?a1 = a" using fresh by (rule delete_update_fresh)
    from r obtain ok where c: "consistent cw ?a1 = Inr ok"
      by (auto split: sum.splits)
    show "a2 = a"
    proof (cases ok)
      case False
      with r c have "try_values cw doms var rest (AList.delete var ?a1) = Inr (None, a2)"
        by simp
      with 3(3) [OF c False] fresh undo show ?thesis by simp
    next
      case True
      with r c obtain res a3 where b: "backtrack cw doms ?a1 = Inr (res, a3)"
        by (auto split: sum.splits)
      with r c True have rn: "res = None"
        by (auto split: option.splits if_splits)
      with 3(1) [OF c True] b have a3: "a3 = ?a1" by blast
      from r c True b rn have k: "var \<in> set (map fst a3)"
        by (auto split: if_splits)
      with r c True b rn
      have "try_values cw doms var rest (AList.delete var a3) = Inr (None, a2)"
        by simp
      moreover from 3(2) [OF c True b refl rn k]
      have "var \<notin> set (map fst (AList.delete var a3)) \<longrightarrow>
        (\<forall>a2. try_values cw doms var rest (AList.delete var a3) = Inr (None, a2) \<longrightarrow>
           a2 = AList.delete var a3)" using rn by simp
      ultimately show ?thesis using a3 undo fresh by simp
    qed
  qed
qed

text \<open>
  C7. Whenever \<open>backtrack\<close> returns \<open>None\<close>, the assignment dictionary it leaves is the
  one it was called with, entry for entry and in the same order: every entry added during
  the call has been deleted again.
\<close>

theorem backtrack_undo:
  "backtrack cw doms a = Inr (None, a') \<Longrightarrow> a' = a"
  using backtrack_undo_both(1) by blast

definition cross_stuck :: domains where
  "cross_stuck = [(slot_A, [''ART'']), (slot_B, [''CAT'', ''CAR''])]"

lemma backtrack_cross_stuck:
  "backtrack cross_sat cross_stuck [(slot_A, ''ART'')] = Inr (None, [(slot_A, ''ART'')])"
  by code_simp

theorem backtrack_undo_witness:
  "\<exists>a'. backtrack cross_sat cross_stuck [(slot_A, ''ART'')] = Inr (None, a') \<and>
     a' = [(slot_A, ''ART'')]"
  using backtrack_undo [OF backtrack_cross_stuck] backtrack_cross_stuck by blast

section \<open>The solver as a whole\<close>

text \<open>\<open>solve\<close> calls three methods in sequence. \<open>solve_trace\<close> also records which of
  them have been called when it ends; the result of \<^verbatim>\<open>self.ac3()\<close> is not used.\<close>

datatype call = Call_enforce_node_consistency | Call_ac3 | Call_backtrack

definition solve_trace :: "crossword \<Rightarrow> call list \<times> (error + assignment option)" where
  "solve_trace cw =
     (let doms1 = enforce_node_consistency (init_domains cw) in
      case ac3 cw doms1 None of
        Inl e \<Rightarrow> ([Call_enforce_node_consistency, Call_ac3], Inl e)
      | Inr (doms2, arc_consistent) \<Rightarrow>
          ([Call_enforce_node_consistency, Call_ac3, Call_backtrack],
           (case backtrack cw doms2 [] of
              Inl e \<Rightarrow> Inl e
            | Inr (result, assignment) \<Rightarrow> Inr result)))"

definition solve :: "crossword \<Rightarrow> error + assignment option" where
  "solve cw = snd (solve_trace cw)"

lemma order_domain_values_set:
  assumes "order_domain_values cw doms var a = Inr vals"
  shows "\<exists>dv. map_of doms var = Some dv \<and> set vals = set dv"
proof -
  from assms obtain dv where dv: "map_of doms var = Some dv"
    by (auto simp: order_domain_values_def Let_def split: option.splits)
  with assms obtain counts where
    c: "mapE (\<lambda>word. count_neighbors cw doms var word
          (filter (\<lambda>n. n \<notin> set (map fst a)) (neighbors cw var)) 0) dv = Inr counts"
    and v: "vals = map fst (sort_key snd (zip dv counts))"
    by (auto simp: order_domain_values_def Let_def split: sum.splits)
  from mapE_Inr [OF c] have "length dv = length counts" by (rule list_all2_lengthD)
  then have "map fst (zip dv counts) = dv" by simp
  then have "set dv = fst ` set (zip dv counts)" by (metis set_map)
  with v dv show ?thesis by simp
qed

lemma update_fresh: "k \<notin> fst ` set al \<Longrightarrow> AList.update k v al = al @ [(k, v)]"
  by (induction al) auto

text \<open>Every entry of the dictionary \<open>r\<close> is an entry of \<open>a\<close> or gives its variable
  a word of that variable's domain.\<close>

definition from_domains :: "domains \<Rightarrow> assignment \<Rightarrow> assignment \<Rightarrow> bool" where
  "from_domains doms a r \<longleftrightarrow>
     (\<forall>v w. (v, w) \<in> set r \<longrightarrow>
        (v, w) \<in> set a \<or> (\<exists>d. map_of doms v = Some d \<and> w \<in> set d))"

definition well_keyed :: "crossword \<Rightarrow> assignment \<Rightarrow> bool" where
  "well_keyed cw a \<longleftrightarrow> distinct (map fst a) \<and> set (map fst a) \<subseteq> set (variables cw)"

lemma well_keyed_update:
  "well_keyed cw a \<Longrightarrow> var \<in> set (variables cw) \<Longrightarrow> well_keyed cw (AList.update var val a)"
  by (auto simp: well_keyed_def distinct_update keys_update)

lemma from_domains_update:
  assumes "from_domains doms (AList.update var val a) r" "var \<notin> set (map fst a)"
    "map_of doms var = Some dv" "val \<in> set dv"
  shows "from_domains doms a r"
  using assms unfolding from_domains_def by (auto simp: update_fresh)

lemma backtrack_sound_both:
  "\<forall>r a2. well_keyed cw a \<and> backtrack cw doms a = Inr (Some r, a2) \<longrightarrow>
     r = a2 \<and> well_keyed cw r \<and> assignment_complete cw r \<and> from_domains doms a r \<and>
     (r = a \<or> consistent cw r = Inr True)"
  "\<forall>r a2. well_keyed cw a \<and> var \<in> set (variables cw) \<and> var \<notin> set (map fst a) \<and>
       (\<exists>dv. map_of doms var = Some dv \<and> set vals \<subseteq> set dv) \<and>
       try_values cw doms var vals a = Inr (Some r, a2) \<longrightarrow>
     r = a2 \<and> well_keyed cw r \<and> assignment_complete cw r \<and> from_domains doms a r \<and>
     consistent cw r = Inr True"
proof (induct cw doms a and cw doms var vals a rule: backtrack_try_values.induct)
  case (1 cw doms a)
  show ?case
  proof (intro allI impI)
    fix r a2
    assume h: "well_keyed cw a \<and> backtrack cw doms a = Inr (Some r, a2)"
    show "r = a2 \<and> well_keyed cw r \<and> assignment_complete cw r \<and> from_domains doms a r \<and>
      (r = a \<or> consistent cw r = Inr True)"
    proof (cases "assignment_complete cw a")
      case True
      with h have "r = a" "a2 = a" by (auto simp: backtrack.simps)
      with h True show ?thesis by (simp add: from_domains_def)
    next
      case nc: False
      with h obtain var where sel: "select_unassigned_variable cw doms a = Inr (Some var)"
        by (auto simp: backtrack.simps split: sum.splits option.splits)
      with h nc obtain vals where ord: "order_domain_values cw doms var a = Inr vals"
        by (auto simp: backtrack.simps split: sum.splits)
      with h nc sel have t: "try_values cw doms var vals a = Inr (Some r, a2)"
        by (simp add: backtrack.simps)
      from select_Some_unassigned [OF sel]
      have v: "var \<in> set (variables cw)" "var \<notin> set (map fst a)" by simp_all
      from order_domain_values_set [OF ord]
      have "\<exists>dv. map_of doms var = Some dv \<and> set vals \<subseteq> set dv" by auto
      with 1 [OF nc sel refl ord] h v t show ?thesis by blast
    qed
  qed
next
  case (2 cw doms var a)
  show ?case by simp
next
  case (3 cw doms var val rest a)
  show ?case
  proof (intro allI impI)
    fix r a2
    assume h: "well_keyed cw a \<and> var \<in> set (variables cw) \<and> var \<notin> set (map fst a) \<and>
       (\<exists>dv. map_of doms var = Some dv \<and> set (val # rest) \<subseteq> set dv) \<and>
       try_values cw doms var (val # rest) a = Inr (Some r, a2)"
    then have wk: "well_keyed cw a" and v: "var \<in> set (variables cw)"
      and fresh: "var \<notin> set (map fst a)"
      and t: "try_values cw doms var (val # rest) a = Inr (Some r, a2)" by simp_all
    from h obtain dv where dv: "map_of doms var = Some dv" "val \<in> set dv" "set rest \<subseteq> set dv"
      by auto
    let ?a1 = "AList.update var val a"
    have undo: "AList.delete var ?a1 = a" using fresh by (rule delete_update_fresh)
    have wk1: "well_keyed cw ?a1" using wk v by (rule well_keyed_update)
    from t obtain ok where c: "consistent cw ?a1 = Inr ok"
      by (auto split: sum.splits)
    have rest_case: "r = a2 \<and> well_keyed cw r \<and> assignment_complete cw r \<and>
        from_domains doms a r \<and> consistent cw r = Inr True"
      if ih: "\<forall>r a2. well_keyed cw a \<and> var \<in> set (variables cw) \<and> var \<notin> set (map fst a) \<and>
           (\<exists>dv. map_of doms var = Some dv \<and> set rest \<subseteq> set dv) \<and>
           try_values cw doms var rest a = Inr (Some r, a2) \<longrightarrow>
         r = a2 \<and> well_keyed cw r \<and> assignment_complete cw r \<and> from_domains doms a r \<and>
         consistent cw r = Inr True"
        and tr: "try_values cw doms var rest a = Inr (Some r, a2)"
      using ih tr wk v fresh dv by blast
    show "r = a2 \<and> well_keyed cw r \<and> assignment_complete cw r \<and> from_domains doms a r \<and>
      consistent cw r = Inr True"
    proof (cases ok)
      case False
      with t c undo have tr: "try_values cw doms var rest a = Inr (Some r, a2)" by simp
      from 3(3) [OF c False] undo
      show ?thesis by (intro rest_case [OF _ tr]) simp
    next
      case True
      with t c obtain res a3 where b: "backtrack cw doms ?a1 = Inr (res, a3)"
        by (auto split: sum.splits)
      show ?thesis
      proof (cases res)
        case (Some r')
        with t c True b have eq: "r' = r" "a3 = a2" by simp_all
        from 3(1) [OF c True] wk1 b Some eq
        have p: "r = a2 \<and> well_keyed cw r \<and> assignment_complete cw r \<and>
          from_domains doms ?a1 r \<and> (r = ?a1 \<or> consistent cw r = Inr True)" by blast
        then have "from_domains doms a r" using fresh dv by (auto intro: from_domains_update)
        moreover from p c True have "consistent cw r = Inr True" by auto
        ultimately show ?thesis using p by blast
      next
        case None
        with b backtrack_undo_both(1) have a3: "a3 = ?a1" by blast
        then have k: "var \<in> set (map fst a3)" by (simp add: keys_update)
        with t c True b None a3 undo
        have tr: "try_values cw doms var rest a = Inr (Some r, a2)" by simp
        from 3(2) [OF c True b refl None k] a3 undo
        show ?thesis by (intro rest_case [OF _ tr]) simp
      qed
    qed
  qed
qed

lemma fold_insert_filter:
  "set (fold (\<lambda>word valid_words. if P word then List.insert word valid_words else valid_words)
          ws acc) = set acc \<union> {w \<in> set ws. P w}"
  by (induction ws arbitrary: acc) auto

lemma set_node_valid_words:
  "set (node_valid_words v ws) = {w \<in> set ws. length w = var_length v}"
  by (simp add: node_valid_words_def fold_insert_filter)

lemma map_of_enforce:
  "map_of (enforce_node_consistency doms) v = map_option (node_valid_words v) (map_of doms v)"
  by (induction doms) (auto simp: enforce_node_consistency_def)

lemma keys_enforce: "map fst (enforce_node_consistency doms) = map fst doms"
  by (induction doms) (auto simp: enforce_node_consistency_def)

lemma map_of_init:
  "map_of (init_domains cw) v = (if v \<in> set (variables cw) then Some (words cw) else None)"
  unfolding init_domains_def by (induction "variables cw") (auto simp: map_of_map_restrict)

lemma keys_init: "map fst (init_domains cw) = variables cw"
  by (simp add: init_domains_def comp_def)

text \<open>The domain store after the constructor and node consistency.\<close>

lemma node_consistent_store:
  "map_of (enforce_node_consistency (init_domains cw)) v =
     (if v \<in> set (variables cw) then Some (node_valid_words v (words cw)) else None)"
  by (simp add: map_of_enforce map_of_init)

lemma ac3_shrinks:
  "ac3 cw doms arcs = Inr (doms', ok) \<Longrightarrow> shrinks doms' doms"
  by (simp add: ac3_def Let_def ac3_loop_shrinks)

lemma solve_Inr_Some:
  assumes "solve cw = Inr (Some r)"
  shows "\<exists>doms2 ok a2.
    ac3 cw (enforce_node_consistency (init_domains cw)) None = Inr (doms2, ok) \<and>
    backtrack cw doms2 [] = Inr (Some r, a2)"
  using assms
  by (auto simp: solve_def solve_trace_def Let_def split: sum.splits prod.splits)

text \<open>
  C2. If \<open>solve\<close> returns an assignment, the assignment is a dictionary whose keys are
  exactly the variables of the instance, every word in it is a word of the vocabulary, the
  checker \<open>consistent\<close> accepts it, and so the assigned words are pairwise distinct, each
  has the length of its variable, and the letters of every two overlapping variables agree
  at the overlap.
\<close>

theorem solve_sound:
  assumes "solve cw = Inr (Some r)"
  shows "distinct (map fst r) \<and> set (map fst r) = set (variables cw) \<and>
     (\<forall>v w. map_of r v = Some w \<longrightarrow> w \<in> set (words cw)) \<and>
     consistent cw r = Inr True \<and> consistent_spec cw (map_of r)"
proof -
  let ?d1 = "enforce_node_consistency (init_domains cw)"
  from solve_Inr_Some [OF assms] obtain doms2 ok a2 where
    ac: "ac3 cw ?d1 None = Inr (doms2, ok)" and
    bt: "backtrack cw doms2 [] = Inr (Some r, a2)" by blast
  have wk0: "well_keyed cw []" by (simp add: well_keyed_def)
  from backtrack_sound_both(1) [of cw "[]" doms2] wk0 bt
  have p: "well_keyed cw r" "assignment_complete cw r" "from_domains doms2 [] r"
    "r = [] \<or> consistent cw r = Inr True" by blast+
  have c0: "consistent cw [] = Inr True" by (simp add: consistent_def)
  with p(4) have c: "consistent cw r = Inr True" by auto
  from p(1) have d: "distinct (map fst r)" by (simp add: well_keyed_def)
  from p(1,2) have k: "set (map fst r) = set (variables cw)"
    by (auto simp: well_keyed_def assignment_complete_def list_all_iff)
  have w: "w \<in> set (words cw)" if "map_of r v = Some w" for v w
  proof -
    from that have "(v, w) \<in> set r" by (rule map_of_SomeD)
    with p(3) obtain d2 where d2: "map_of doms2 v = Some d2" "w \<in> set d2"
      by (auto simp: from_domains_def)
    from ac3_shrinks [OF ac] d2 obtain d1 where d1: "map_of ?d1 v = Some d1" "set d2 \<subseteq> set d1"
      unfolding shrinks_def by blast
    then have "d1 = node_valid_words v (words cw)"
      by (simp add: node_consistent_store split: if_splits)
    with d1 d2 show ?thesis by (auto simp: set_node_valid_words)
  qed
  from consistent_True_iff [OF d, of cw] c
  have "consistent_spec cw (map_of r)" by simp
  with d k w c show ?thesis by blast
qed

lemma solve_cross_sat:
  "solve cross_sat = Inr (Some [(slot_B, ''ART''), (slot_A, ''CAR'')])"
  by code_simp

theorem solve_sound_witness:
  "solve cross_sat = Inr (Some [(slot_B, ''ART''), (slot_A, ''CAR'')]) \<and>
   set (map fst [(slot_B, ''ART''), (slot_A, ''CAR'')]) = set (variables cross_sat) \<and>
   consistent cross_sat [(slot_B, ''ART''), (slot_A, ''CAR'')] = Inr True"
  using solve_sound [OF solve_cross_sat] solve_cross_sat by blast

subsection \<open>Propagation that empties a domain\<close>

lemma ac3_loop_False:
  "ac3_loop cw doms queue = Inr (doms', False) \<Longrightarrow>
   \<forall>arc\<in>set queue. fst arc \<in> set (variables cw) \<Longrightarrow>
   \<exists>x\<in>set (variables cw). map_of doms' x = Some []"
proof (induction cw doms queue rule: ac3_loop.induct)
  case (1 cw doms)
  then show ?case by simp
next
  case (2 cw doms x y queue)
  from "2.prems"(1) obtain d1 revised where r: "revise cw doms x y = Inr (d1, revised)"
    by (auto split: sum.splits)
  from "2.prems"(2) have x: "x \<in> set (variables cw)"
    and q: "\<forall>arc\<in>set queue. fst arc \<in> set (variables cw)" by simp_all
  show ?case
  proof (cases revised)
    case False
    with "2.prems"(1) r have "ac3_loop cw d1 queue = Inr (doms', False)" by simp
    from "2.IH"(2) [OF r refl False this q] show ?thesis .
  next
    case True
    with "2.prems"(1) r obtain dx where dx: "map_of d1 x = Some dx"
      by (auto split: option.splits)
    show ?thesis
    proof (cases "length dx = 0")
      case True
      with "2.prems"(1) r \<open>revised\<close> dx have "doms' = d1" by simp
      with dx True x show ?thesis by auto
    next
      case False
      let ?q = "queue @ map (\<lambda>z. (z, x)) (filter (\<lambda>z. z \<noteq> y) (neighbors cw x))"
      from "2.prems"(1) r \<open>revised\<close> dx False
      have l: "ac3_loop cw d1 ?q = Inr (doms', False)" by simp
      have "\<forall>arc\<in>set ?q. fst arc \<in> set (variables cw)"
        using q by (auto simp: neighbors_def)
      from "2.IH"(1) [OF r refl \<open>revised\<close> dx False l this] show ?thesis .
    qed
  qed
qed

lemma ac3_default_False:
  assumes "ac3 cw doms None = Inr (doms', False)"
  shows "\<exists>x\<in>set (variables cw). map_of doms' x = Some []"
proof -
  let ?q = "concat (map (\<lambda>x. map (\<lambda>y. (x, y)) (neighbors cw x)) (variables cw))"
  from assms have "ac3_loop cw doms ?q = Inr (doms', False)" by (simp add: ac3_def)
  moreover have "\<forall>arc\<in>set ?q. fst arc \<in> set (variables cw)" by auto
  ultimately show ?thesis by (rule ac3_loop_False)
qed

lemma keys_after_ac3:
  assumes "ac3 cw (enforce_node_consistency (init_domains cw)) arcs = Inr (doms2, ok)"
  shows "map fst doms2 = variables cw"
  using ac3_shrinks [OF assms] by (simp add: shrinks_def keys_enforce keys_init)

lemma order_domain_values_empty:
  "map_of doms var = Some [] \<Longrightarrow> order_domain_values cw doms var a = Inr []"
  by (simp add: order_domain_values_def)

lemma backtrack_empty_domain:
  assumes keys: "set (variables cw) \<subseteq> set (map fst doms)"
    and x: "x \<in> set (variables cw)" "x \<notin> set (map fst a)" "map_of doms x = Some []"
  shows "backtrack cw doms a = Inr (None, a) \<and>
    (\<exists>var. select_unassigned_variable cw doms a = Inr (Some var) \<and>
       order_domain_values cw doms var a = Inr [])"
proof -
  from x have nc: "\<not> assignment_complete cw a"
    by (auto simp: assignment_complete_def list_all_iff)
  from select_total [OF keys] obtain r where r: "select_unassigned_variable cw doms a = Inr r"
    by blast
  with nc select_None_iff [of cw doms a] obtain var where var: "r = Some var"
    by (cases r) auto
  with r have sel: "select_unassigned_variable cw doms a = Inr (Some var)" by simp
  from select_Some_min [OF sel] x(1,2) obtain kv ku where
    k: "select_key cw doms var = Inr kv" "select_key cw doms x = Inr ku" "kv \<le> ku" by blast
  from k(2) x(3) have "fst ku = 0" by (auto simp: select_key_def)
  with k(3) have "fst kv = 0" by (auto simp: less_eq_prod_def)
  with k(1) have "map_of doms var = Some []"
    by (auto simp: select_key_def split: option.splits)
  then have ord: "order_domain_values cw doms var a = Inr []"
    by (rule order_domain_values_empty)
  with nc sel have "backtrack cw doms a = Inr (None, a)" by (simp add: backtrack.simps)
  with sel ord show ?thesis by blast
qed

text \<open>
  C1, as the code has it. When \<open>ac3\<close> returns \<open>False\<close> in \<open>solve\<close>, \<open>solve\<close> returns
  \<open>None\<close>, and it does so through \<open>backtrack\<close>: the return value of \<open>ac3\<close> is ignored,
  \<open>backtrack\<close> is called on the empty assignment, selects a variable whose domain is empty,
  has no value to try and returns \<open>None\<close> at once.
\<close>

theorem solve_after_failed_propagation:
  assumes "ac3 cw (enforce_node_consistency (init_domains cw)) None = Inr (doms2, False)"
  shows "solve cw = Inr None \<and>
    fst (solve_trace cw) = [Call_enforce_node_consistency, Call_ac3, Call_backtrack] \<and>
    backtrack cw doms2 [] = Inr (None, []) \<and>
    (\<exists>var. select_unassigned_variable cw doms2 [] = Inr (Some var) \<and>
       order_domain_values cw doms2 var [] = Inr [])"
proof -
  from ac3_default_False [OF assms] obtain x where
    x: "x \<in> set (variables cw)" "map_of doms2 x = Some []" by blast
  from keys_after_ac3 [OF assms] have "set (variables cw) \<subseteq> set (map fst doms2)" by simp
  from backtrack_empty_domain [OF this x(1) _ x(2), of "[]"]
  have b: "backtrack cw doms2 [] = Inr (None, []) \<and>
    (\<exists>var. select_unassigned_variable cw doms2 [] = Inr (Some var) \<and>
       order_domain_values cw doms2 var [] = Inr [])" by simp
  with assms have "solve_trace cw =
      ([Call_enforce_node_consistency, Call_ac3, Call_backtrack], Inr None)"
    by (simp add: solve_trace_def)
  with b show ?thesis by (simp add: solve_def)
qed

lemma ac3_cross_unsat:
  "ac3 cross_unsat (enforce_node_consistency (init_domains cross_unsat)) None =
     Inr ([(slot_A, []), (slot_B, [''DOG'', ''CAT''])], False)"
  by code_simp

theorem solve_after_failed_propagation_witness:
  "solve cross_unsat = Inr None \<and>
   fst (solve_trace cross_unsat) = [Call_enforce_node_consistency, Call_ac3, Call_backtrack] \<and>
   backtrack cross_unsat [(slot_A, []), (slot_B, [''DOG'', ''CAT''])] [] = Inr (None, [])"
  using solve_after_failed_propagation [OF ac3_cross_unsat] by blast

text \<open>The claim that \<open>backtrack\<close> is not entered when \<open>ac3\<close> returns \<open>False\<close> fails on the
  unsatisfiable example of the specification: \<open>ac3\<close> returns \<open>False\<close> and \<open>solve\<close> has
  called \<open>backtrack\<close>.\<close>

theorem solve_enters_backtrack_counterexample:
  "ac3 cross_unsat (enforce_node_consistency (init_domains cross_unsat)) None =
     Inr ([(slot_A, []), (slot_B, [''DOG'', ''CAT''])], False) \<and>
   solve_trace cross_unsat =
     ([Call_enforce_node_consistency, Call_ac3, Call_backtrack], Inr None)"
  by code_simp

section \<open>Arc consistency after AC-3\<close>

text \<open>The arc \<open>(x, y)\<close> is consistent in a domain store: every word of the domain of \<open>x\<close>
  has a word in the domain of \<open>y\<close> with the same letter at the overlap.\<close>

definition arc_ok :: "crossword \<Rightarrow> domains \<Rightarrow> variable \<Rightarrow> variable \<Rightarrow> bool" where
  "arc_ok cw doms x y \<longleftrightarrow>
     (\<forall>i j dx w. overlaps cw x y = Some (i, j) \<and> map_of doms x = Some dx \<and> w \<in> set dx \<longrightarrow>
        (\<exists>dy w'. map_of doms y = Some dy \<and> w' \<in> set dy \<and> agree i j w w'))"

text \<open>The invariant of the worklist loop: an arc between two distinct variables of the
  instance is waiting in the queue or is consistent.\<close>

definition ac3_inv :: "crossword \<Rightarrow> domains \<Rightarrow> (variable \<times> variable) list \<Rightarrow> bool" where
  "ac3_inv cw doms queue \<longleftrightarrow>
     (\<forall>x y. x \<in> set (variables cw) \<and> y \<in> set (variables cw) \<and> x \<noteq> y \<and>
        overlaps cw x y \<noteq> None \<longrightarrow> (x, y) \<in> set queue \<or> arc_ok cw doms x y)"

lemma ac3_invD:
  "ac3_inv cw doms queue \<Longrightarrow> x \<in> set (variables cw) \<Longrightarrow> y \<in> set (variables cw) \<Longrightarrow>
   x \<noteq> y \<Longrightarrow> overlaps cw x y \<noteq> None \<Longrightarrow> (x, y) \<in> set queue \<or> arc_ok cw doms x y"
  by (simp add: ac3_inv_def)

lemma arc_okD:
  "arc_ok cw doms x y \<Longrightarrow> overlaps cw x y = Some (i, j) \<Longrightarrow> map_of doms x = Some dx \<Longrightarrow>
   w \<in> set dx \<Longrightarrow> \<exists>dy w'. map_of doms y = Some dy \<and> w' \<in> set dy \<and> agree i j w w'"
  unfolding arc_ok_def by blast

lemma agree_swap: "agree i j w w' \<Longrightarrow> agree j i w' w"
  by (simp add: agree_def)

lemma ac3_inv_step:
  assumes sym: "\<forall>x\<in>set (variables cw). \<forall>y\<in>set (variables cw).
      overlaps cw y x = map_option prod.swap (overlaps cw x y)"
    and inv: "ac3_inv cw doms ((x, y) # queue)"
    and r: "revise cw doms x y = Inr (d1, revised)"
  shows "ac3_inv cw d1
    (if revised then queue @ map (\<lambda>z. (z, x)) (filter (\<lambda>z. z \<noteq> y) (neighbors cw x))
     else queue)"
    (is "ac3_inv cw d1 ?q")
proof -
  have sub: "set queue \<subseteq> set ?q" by auto
  from revise_effect [OF r] show ?thesis
  proof (elim disjE exE conjE)
    assume a: "overlaps cw x y = None" "d1 = doms" "\<not> revised"
    show ?thesis unfolding ac3_inv_def
    proof (intro allI impI)
      fix u v
      assume h: "u \<in> set (variables cw) \<and> v \<in> set (variables cw) \<and> u \<noteq> v \<and>
        overlaps cw u v \<noteq> None"
      with a(1) have ne: "(u, v) \<noteq> (x, y)" by auto
      have "(u, v) \<in> set ((x, y) # queue) \<or> arc_ok cw doms u v"
        by (rule ac3_invD [OF inv]) (use h in simp_all)
      with ne have "(u, v) \<in> set queue \<or> arc_ok cw doms u v" by auto
      with a show "(u, v) \<in> set ?q \<or> arc_ok cw d1 u v" by simp
    qed
  next
    fix i j dx dx'
    assume ov: "overlaps cw x y = Some (i, j)" and dx: "map_of doms x = Some dx"
      and m: "map_of d1 = (map_of doms)(x \<mapsto> dx')"
      and n: "\<not> revised \<longrightarrow> d1 = doms"
      and c: "\<forall>w. w \<in> set dx' \<longleftrightarrow>
          w \<in> set dx \<and> (\<exists>dy w'. map_of doms y = Some dy \<and> w' \<in> set dy \<and> agree i j w w')"
    have cc: "w \<in> set dx' \<longleftrightarrow>
          w \<in> set dx \<and> (\<exists>dy w'. map_of doms y = Some dy \<and> w' \<in> set dy \<and> agree i j w w')"
      for w using c by (rule spec)
    have cD1: "w \<in> set dx" if "w \<in> set dx'" for w
      using iffD1 [OF cc that] by (rule conjunct1)
    have cD2: "\<exists>dy w'. map_of doms y = Some dy \<and> w' \<in> set dy \<and> agree i j w w'"
      if "w \<in> set dx'" for w
      using iffD1 [OF cc that] by (rule conjunct2)
    have cI: "w \<in> set dx'"
      if t: "w \<in> set dx" "map_of doms y = Some dy" "w' \<in> set dy" "agree i j w w'" for w dy w'
    proof (rule iffD2 [OF cc], rule conjI)
      show "w \<in> set dx" by (rule t(1))
      show "\<exists>dy w'. map_of doms y = Some dy \<and> w' \<in> set dy \<and> agree i j w w'"
        using t(2,3,4) by (intro exI conjI)
    qed
    have other: "map_of d1 z = map_of doms z" if "z \<noteq> x" for z using m that by simp
    have here: "map_of d1 x = Some dx'" using m by simp
    show ?thesis unfolding ac3_inv_def
    proof (intro allI impI)
      fix u v
      assume h: "u \<in> set (variables cw) \<and> v \<in> set (variables cw) \<and> u \<noteq> v \<and>
        overlaps cw u v \<noteq> None"
      then have uV: "u \<in> set (variables cw)" and vV: "v \<in> set (variables cw)"
        and uv: "u \<noteq> v" and ouv: "overlaps cw u v \<noteq> None" by simp_all
      show "(u, v) \<in> set ?q \<or> arc_ok cw d1 u v"
      proof (cases "(u, v) = (x, y)")
        case True
        then have e: "u = x" "v = y" by simp_all
        with uv have yx: "y \<noteq> x" by simp
        have "arc_ok cw d1 x y" unfolding arc_ok_def
        proof (intro allI impI)
          fix i' j' dd w
          assume g: "overlaps cw x y = Some (i', j') \<and> map_of d1 x = Some dd \<and> w \<in> set dd"
          with ov here have ij: "i' = i" "j' = j" and w: "w \<in> set dx'" by simp_all
          from cD2 [OF w] obtain dy w' where
            "map_of doms y = Some dy" "w' \<in> set dy" "agree i j w w'" by blast
          with other [OF yx] ij
          show "\<exists>dy w'. map_of d1 y = Some dy \<and> w' \<in> set dy \<and> agree i' j' w w'" by auto
        qed
        with e show ?thesis by simp
      next
        case False
        have "(u, v) \<in> set ((x, y) # queue) \<or> arc_ok cw doms u v"
        by (rule ac3_invD [OF inv]) (use h in simp_all)
        with False have old: "(u, v) \<in> set queue \<or> arc_ok cw doms u v" by auto
        show ?thesis
        proof (cases "(u, v) \<in> set queue")
          case True
          with sub show ?thesis by blast
        next
          case nq: False
          with old have ok: "arc_ok cw doms u v" by simp
          show ?thesis
          proof (cases "v = x")
            case vx: True
            with uv have ux: "u \<noteq> x" by simp
            show ?thesis
            proof (cases "u = y")
              case uy: True
              from vV uV vx uy have xV: "x \<in> set (variables cw)" and yV: "y \<in> set (variables cw)"
                by simp_all
              from sym xV have "\<forall>y\<in>set (variables cw).
                  overlaps cw y x = map_option prod.swap (overlaps cw x y)" by (rule bspec)
              from this yV have "overlaps cw y x = map_option prod.swap (overlaps cw x y)"
                by (rule bspec)
              with ov have oyx: "overlaps cw y x = Some (j, i)" by simp
              have "arc_ok cw d1 y x" unfolding arc_ok_def
              proof (intro allI impI)
                fix i' j' dd w'
                assume g: "overlaps cw y x = Some (i', j') \<and> map_of d1 y = Some dd \<and> w' \<in> set dd"
                with oyx have ij: "i' = j" "j' = i" by simp_all
                from g ux uy other [of y] have dy: "map_of doms y = Some dd" by simp
                from ok uy vx have ok': "arc_ok cw doms y x" by simp
                from g have w'in: "w' \<in> set dd" by simp
                from arc_okD [OF ok' oyx dy w'in] dx
                obtain w where w: "w \<in> set dx" "agree j i w' w" by auto
                from w(2) have "agree i j w w'" by (rule agree_swap)
                from cI [OF w(1) dy w'in this] have "w \<in> set dx'" .
                with here w(2) ij
                show "\<exists>dy w. map_of d1 x = Some dy \<and> w \<in> set dy \<and> agree i' j' w' w" by auto
              qed
              with uy vx show ?thesis by simp
            next
              case uy: False
              show ?thesis
              proof (cases revised)
                case True
                from uV ux ouv vx have "u \<in> set (neighbors cw x)"
                  by (simp add: neighbors_def)
                with uy True vx show ?thesis by simp
              next
                case False
                with n ok show ?thesis by simp
              qed
            qed
          next
            case vx: False
            have "arc_ok cw d1 u v" unfolding arc_ok_def
            proof (intro allI impI)
              fix i' j' dd w
              assume g: "overlaps cw u v = Some (i', j') \<and> map_of d1 u = Some dd \<and> w \<in> set dd"
              have "\<exists>du. map_of doms u = Some du \<and> w \<in> set du"
              proof (cases "u = x")
                case True
                with g here have "w \<in> set dx'" by simp
                then have "w \<in> set dx" by (rule cD1)
                with dx True show ?thesis by simp
              next
                case False
                with g other [OF False] show ?thesis by simp
              qed
              then obtain du where du: "map_of doms u = Some du" "w \<in> set du" by blast
              from g have "overlaps cw u v = Some (i', j')" by simp
              from arc_okD [OF ok this du] obtain dv w' where
                "map_of doms v = Some dv" "w' \<in> set dv" "agree i' j' w w'" by blast
              with other [OF vx]
              show "\<exists>dy w'. map_of d1 v = Some dy \<and> w' \<in> set dy \<and> agree i' j' w w'" by auto
            qed
            then show ?thesis by simp
          qed
        qed
      qed
    qed
  qed
qed

lemma ac3_loop_sound:
  assumes sym: "\<forall>x\<in>set (variables cw). \<forall>y\<in>set (variables cw).
      overlaps cw y x = map_option prod.swap (overlaps cw x y)"
  shows "ac3_inv cw doms queue \<Longrightarrow> ac3_loop cw doms queue = Inr (doms', True) \<Longrightarrow>
    ac3_inv cw doms' []"
  using sym
proof (induction cw doms queue rule: ac3_loop.induct)
  case (1 cw doms)
  then show ?case by simp
next
  case (2 cw doms x y queue)
  note inv = "2.prems"(1) and res = "2.prems"(2) and sym = "2.prems"(3)
  from res obtain d1 revised where r: "revise cw doms x y = Inr (d1, revised)"
    by (auto split: sum.splits)
  note step = ac3_inv_step [OF sym inv r]
  show ?case
  proof (cases revised)
    case False
    with res r have l: "ac3_loop cw d1 queue = Inr (doms', True)" by simp
    from step False have "ac3_inv cw d1 queue" by simp
    from "2.IH"(2) [OF r refl False this l sym] show ?thesis .
  next
    case True
    with res r obtain dx where dx: "map_of d1 x = Some dx"
      by (auto split: option.splits)
    from res r True dx have ne: "length dx \<noteq> 0" by (auto split: if_splits)
    let ?q = "queue @ map (\<lambda>z. (z, x)) (filter (\<lambda>z. z \<noteq> y) (neighbors cw x))"
    from res r True dx ne have l: "ac3_loop cw d1 ?q = Inr (doms', True)" by simp
    from step True have "ac3_inv cw d1 ?q" by simp
    from "2.IH"(1) [OF r refl True dx ne this l sym] show ?thesis .
  qed
qed

lemma ac3_inv_initial:
  assumes sym: "\<forall>x\<in>set (variables cw). \<forall>y\<in>set (variables cw).
      overlaps cw y x = map_option prod.swap (overlaps cw x y)"
  shows "ac3_inv cw doms
    (concat (map (\<lambda>x. map (\<lambda>y. (x, y)) (neighbors cw x)) (variables cw)))"
  unfolding ac3_inv_def
proof (intro allI impI)
  fix x y
  assume h: "x \<in> set (variables cw) \<and> y \<in> set (variables cw) \<and> x \<noteq> y \<and>
    overlaps cw x y \<noteq> None"
  then have xV: "x \<in> set (variables cw)" and yV: "y \<in> set (variables cw)" by simp_all
  from sym xV have "\<forall>y\<in>set (variables cw).
      overlaps cw y x = map_option prod.swap (overlaps cw x y)" by (rule bspec)
  from this yV have "overlaps cw y x = map_option prod.swap (overlaps cw x y)" by (rule bspec)
  with h have "overlaps cw y x \<noteq> None" by simp
  with h have "y \<in> set (neighbors cw x)" by (auto simp: neighbors_def)
  with xV have "(x, y) \<in> set (concat (map (\<lambda>x. map (\<lambda>y. (x, y)) (neighbors cw x))
      (variables cw)))" by auto
  then show "(x, y) \<in> set (concat (map (\<lambda>x. map (\<lambda>y. (x, y)) (neighbors cw x))
      (variables cw))) \<or> arc_ok cw doms x y" by simp
qed

text \<open>
  C4. On an instance whose overlap relation is symmetric with the indices swapped (the
  overlap of \<open>(y, x)\<close> is that of \<open>(x, y)\<close> read the other way, as overlaps computed from a
  grid are), whenever \<open>ac3\<close> is run with the default arc list and returns \<open>True\<close>, then
  for every two distinct variables \<open>x\<close>, \<open>y\<close> of the instance with overlap \<open>(i, j)\<close>, every
  word \<open>w\<close> left in the domain of \<open>x\<close> has a word \<open>w'\<close> in the domain of \<open>y\<close> with
  \<open>w[i] = w'[j]\<close>.
\<close>

theorem ac3_arc_consistent:
  assumes "\<forall>x\<in>set (variables cw). \<forall>y\<in>set (variables cw).
      overlaps cw y x = map_option prod.swap (overlaps cw x y)"
    and "ac3 cw doms None = Inr (doms', True)"
    and "x \<in> set (variables cw)" "y \<in> set (variables cw)" "x \<noteq> y"
    and "overlaps cw x y = Some (i, j)"
    and "map_of doms' x = Some dx" "w \<in> set dx"
  shows "\<exists>dy w'. map_of doms' y = Some dy \<and> w' \<in> set dy \<and>
    i < length w \<and> j < length w' \<and> w ! i = w' ! j"
proof -
  let ?q = "concat (map (\<lambda>x. map (\<lambda>y. (x, y)) (neighbors cw x)) (variables cw))"
  from assms(2) have l: "ac3_loop cw doms ?q = Inr (doms', True)" by (simp add: ac3_def)
  from ac3_loop_sound [OF assms(1) ac3_inv_initial [OF assms(1)] l]
  have "ac3_inv cw doms' []" .
  from ac3_invD [OF this assms(3,4,5)] assms(6) have "arc_ok cw doms' x y" by simp
  from arc_okD [OF this assms(6,7,8)] show ?thesis by (simp add: agree_def)
qed

lemma cross_sat_symmetric:
  "\<forall>x\<in>set (variables cross_sat). \<forall>y\<in>set (variables cross_sat).
      overlaps cross_sat y x = map_option prod.swap (overlaps cross_sat x y)"
  by (simp add: cross_sat_def cross_overlaps_def)

lemma ac3_cross_pruned: "ac3 cross_sat cross_doms None = Inr (cross_pruned, True)"
  by code_simp

theorem ac3_arc_consistent_witness:
  "ac3 cross_sat cross_doms None = Inr (cross_pruned, True) \<and>
   (\<exists>dy w'. map_of cross_pruned slot_B = Some dy \<and> w' \<in> set dy \<and>
      1 < length ''CAT'' \<and> 0 < length w' \<and> ''CAT'' ! 1 = w' ! 0)"
proof -
  have v: "slot_A \<in> set (variables cross_sat)" "slot_B \<in> set (variables cross_sat)"
    by (simp_all add: cross_sat_def)
  have o: "overlaps cross_sat slot_A slot_B = Some (1, 0)"
    by (simp add: cross_sat_def cross_overlaps_def)
  have d: "map_of cross_pruned slot_A = Some [''CAT'', ''CAR'']"
    by (simp add: cross_pruned_def)
  have w: "''CAT'' \<in> set [''CAT'', ''CAR'']" by simp
  from ac3_arc_consistent [OF cross_sat_symmetric ac3_cross_pruned v slots_distinct(1) o d w]
    ac3_cross_pruned
  show ?thesis by blast
qed

section \<open>Completeness of the solver\<close>

text \<open>A solution of the instance, in the words of the specification: a total assignment of
  vocabulary words to the variables of the instance that is consistent.\<close>

definition solution :: "crossword \<Rightarrow> (variable \<rightharpoonup> string) \<Rightarrow> bool" where
  "solution cw m \<longleftrightarrow>
     dom m = set (variables cw) \<and> (\<forall>v w. m v = Some w \<longrightarrow> w \<in> set (words cw)) \<and>
     consistent_spec cw m"

text \<open>The overlaps between distinct variables of the instance lie inside the variables.\<close>

definition in_range :: "crossword \<Rightarrow> bool" where
  "in_range cw \<longleftrightarrow>
     (\<forall>x y i j. x \<in> set (variables cw) \<and> y \<in> set (variables cw) \<and> x \<noteq> y \<and>
        overlaps cw x y = Some (i, j) \<longrightarrow> i < var_length x \<and> j < var_length y)"

text \<open>A domain store that is node consistent and still offers every variable its word of the
  solution \<open>m\<close>.\<close>

definition store_ok :: "crossword \<Rightarrow> (variable \<rightharpoonup> string) \<Rightarrow> domains \<Rightarrow> bool" where
  "store_ok cw m doms \<longleftrightarrow>
     (\<forall>v. v \<in> set (variables cw) \<longrightarrow>
        (\<exists>d w. map_of doms v = Some d \<and> m v = Some w \<and> w \<in> set d \<and>
           (\<forall>u. u \<in> set d \<longrightarrow> length u = var_length v)))"

lemma store_okD:
  "store_ok cw m doms \<Longrightarrow> v \<in> set (variables cw) \<Longrightarrow>
   \<exists>d w. map_of doms v = Some d \<and> m v = Some w \<and> w \<in> set d \<and>
     (\<forall>u. u \<in> set d \<longrightarrow> length u = var_length v)"
  by (simp add: store_ok_def)

lemma in_rangeD:
  "in_range cw \<Longrightarrow> x \<in> set (variables cw) \<Longrightarrow> y \<in> set (variables cw) \<Longrightarrow> x \<noteq> y \<Longrightarrow>
   overlaps cw x y = Some (i, j) \<Longrightarrow> i < var_length x \<and> j < var_length y"
  unfolding in_range_def by blast

lemma solution_lookup:
  "solution cw m \<Longrightarrow> v \<in> set (variables cw) \<Longrightarrow>
   \<exists>w. m v = Some w \<and> w \<in> set (words cw) \<and> length w = var_length v"
  unfolding solution_def consistent_spec_def by (metis domD)

lemma solution_agree:
  "solution cw m \<Longrightarrow> x \<noteq> y \<Longrightarrow> m x = Some wx \<Longrightarrow> m y = Some wy \<Longrightarrow>
   overlaps cw x y = Some (i, j) \<Longrightarrow> agree i j wx wy"
  unfolding solution_def consistent_spec_def agree_def by blast

lemma solution_in_range:
  assumes "solution cw m"
  shows "in_range cw"
  unfolding in_range_def
proof (intro allI impI)
  fix x y i j
  assume h: "x \<in> set (variables cw) \<and> y \<in> set (variables cw) \<and> x \<noteq> y \<and>
    overlaps cw x y = Some (i, j)"
  from solution_lookup [OF assms, of x] h obtain wx where
    wx: "m x = Some wx" "length wx = var_length x" by blast
  from solution_lookup [OF assms, of y] h obtain wy where
    wy: "m y = Some wy" "length wy = var_length y" by blast
  from h have "x \<noteq> y" "overlaps cw x y = Some (i, j)" by simp_all
  from solution_agree [OF assms this(1) wx(1) wy(1) this(2)] wx(2) wy(2)
  show "i < var_length x \<and> j < var_length y" by (simp add: agree_def)
qed

lemma store_ok_initial:
  assumes "solution cw m"
  shows "store_ok cw m (enforce_node_consistency (init_domains cw))"
  unfolding store_ok_def
proof (intro allI impI)
  fix v
  assume v: "v \<in> set (variables cw)"
  from solution_lookup [OF assms v] obtain w where
    w: "m v = Some w" "w \<in> set (words cw)" "length w = var_length v" by blast
  let ?d = "node_valid_words v (words cw)"
  from v have "map_of (enforce_node_consistency (init_domains cw)) v = Some ?d"
    by (simp add: node_consistent_store)
  moreover from w have "w \<in> set ?d" by (simp add: set_node_valid_words)
  moreover have "\<forall>u. u \<in> set ?d \<longrightarrow> length u = var_length v"
    by (simp add: set_node_valid_words)
  ultimately show "\<exists>d w. map_of (enforce_node_consistency (init_domains cw)) v = Some d \<and>
      m v = Some w \<and> w \<in> set d \<and> (\<forall>u. u \<in> set d \<longrightarrow> length u = var_length v)"
    using w(1) by blast
qed

lemma revise_store_ok:
  assumes sol: "solution cw m" and ok: "store_ok cw m doms"
    and x: "x \<in> set (variables cw)" and y: "y \<in> set (variables cw)" and xy: "x \<noteq> y"
  shows "\<exists>d1 revised. revise cw doms x y = Inr (d1, revised) \<and> store_ok cw m d1"
proof (cases "overlaps cw x y")
  case None
  then have "revise cw doms x y = Inr (doms, False)" by (rule revise_no_overlap)
  with ok show ?thesis by blast
next
  case (Some ij)
  obtain i j where ij: "ij = (i, j)" by (cases ij)
  with Some have ov: "overlaps cw x y = Some (i, j)" by simp
  from store_okD [OF ok x] obtain dx wx where
    dx: "map_of doms x = Some dx" "m x = Some wx" "wx \<in> set dx"
      "\<forall>u. u \<in> set dx \<longrightarrow> length u = var_length x" by blast
  from store_okD [OF ok y] obtain dy wy where
    dy: "map_of doms y = Some dy" "m y = Some wy" "wy \<in> set dy"
      "\<forall>u. u \<in> set dy \<longrightarrow> length u = var_length y" by blast
  from in_rangeD [OF solution_in_range [OF sol] x y xy ov]
  have r: "i < var_length x" "j < var_length y" by simp_all
  from r(1) dx(4) have lx: "\<forall>w\<in>set dx. i < length w" by simp
  from r(2) dy(4) have ly: "\<forall>w'\<in>set dy. j < length w'" by simp
  let ?dx' = "filter (\<lambda>w. \<exists>w'\<in>set dy. w ! i = w' ! j) dx"
  note rv = revise_overlap [OF ov dx(1) dy(1) lx ly]
  have m1: "map_of (AList.update x ?dx' doms) = (map_of doms)(x \<mapsto> ?dx')"
    by (rule update_conv')
  from solution_agree [OF sol xy dx(2) dy(2) ov] have "wx ! i = wy ! j"
    by (simp add: agree_def)
  with dy(3) dx(3) have keep: "wx \<in> set ?dx'" by auto
  have "store_ok cw m (AList.update x ?dx' doms)" unfolding store_ok_def
  proof (intro allI impI)
    fix v
    assume v: "v \<in> set (variables cw)"
    show "\<exists>d w. map_of (AList.update x ?dx' doms) v = Some d \<and> m v = Some w \<and> w \<in> set d \<and>
      (\<forall>u. u \<in> set d \<longrightarrow> length u = var_length v)"
    proof (cases "v = x")
      case True
      have "\<forall>u. u \<in> set ?dx' \<longrightarrow> length u = var_length x" using dx(4) by simp
      with True m1 dx(2) keep show ?thesis by auto
    next
      case False
      with m1 have "map_of (AList.update x ?dx' doms) v = map_of doms v" by simp
      with store_okD [OF ok v] show ?thesis by simp
    qed
  qed
  with rv show ?thesis by blast
qed

definition proper_arcs :: "crossword \<Rightarrow> (variable \<times> variable) list \<Rightarrow> bool" where
  "proper_arcs cw queue \<longleftrightarrow>
     (\<forall>x y. (x, y) \<in> set queue \<longrightarrow>
        x \<in> set (variables cw) \<and> y \<in> set (variables cw) \<and> x \<noteq> y)"

lemma proper_arcs_tail: "proper_arcs cw (arc # queue) \<Longrightarrow> proper_arcs cw queue"
  by (simp add: proper_arcs_def)

lemma proper_arcs_requeue:
  "proper_arcs cw ((x, y) # queue) \<Longrightarrow>
   proper_arcs cw (queue @ map (\<lambda>z. (z, x)) (filter (\<lambda>z. z \<noteq> y) (neighbors cw x)))"
  by (auto simp: proper_arcs_def neighbors_def)

lemma proper_arcs_initial:
  "proper_arcs cw (concat (map (\<lambda>x. map (\<lambda>y. (x, y)) (neighbors cw x)) (variables cw)))"
  by (auto simp: proper_arcs_def neighbors_def)

lemma ac3_loop_store_ok:
  "solution cw m \<Longrightarrow> store_ok cw m doms \<Longrightarrow> proper_arcs cw queue \<Longrightarrow>
   \<exists>doms' ok. ac3_loop cw doms queue = Inr (doms', ok) \<and> store_ok cw m doms'"
proof (induction cw doms queue rule: ac3_loop.induct)
  case (1 cw doms)
  then show ?case by auto
next
  case (2 cw doms x y queue)
  note sol = "2.prems"(1) and ok = "2.prems"(2) and pa = "2.prems"(3)
  from pa have x: "x \<in> set (variables cw)" and y: "y \<in> set (variables cw)" and xy: "x \<noteq> y"
    by (simp_all add: proper_arcs_def)
  from revise_store_ok [OF sol ok x y xy] obtain d1 revised where
    r: "revise cw doms x y = Inr (d1, revised)" and ok1: "store_ok cw m d1" by blast
  show ?case
  proof (cases revised)
    case False
    from "2.IH"(2) [OF r refl False sol ok1 proper_arcs_tail [OF pa]]
    obtain doms' b where "ac3_loop cw d1 queue = Inr (doms', b)" "store_ok cw m doms'"
      by blast
    with r False show ?thesis by simp
  next
    case True
    from store_okD [OF ok1 x] obtain dx where dx: "map_of d1 x = Some dx" by blast
    show ?thesis
    proof (cases "length dx = 0")
      case e: True
      with r True dx have "ac3_loop cw doms ((x, y) # queue) = Inr (d1, False)" by simp
      with ok1 show ?thesis by blast
    next
      case ne: False
      from "2.IH"(1) [OF r refl True dx ne sol ok1 proper_arcs_requeue [OF pa]]
      obtain doms' b where
        "ac3_loop cw d1 (queue @ map (\<lambda>z. (z, x)) (filter (\<lambda>z. z \<noteq> y) (neighbors cw x)))
           = Inr (doms', b)" "store_ok cw m doms'" by blast
      with r True dx ne show ?thesis by simp
    qed
  qed
qed

lemma ac3_store_ok:
  assumes "solution cw m"
  shows "\<exists>doms2 ok.
    ac3 cw (enforce_node_consistency (init_domains cw)) None = Inr (doms2, ok) \<and>
    store_ok cw m doms2"
  using ac3_loop_store_ok [OF assms store_ok_initial [OF assms] proper_arcs_initial]
  by (simp add: ac3_def)

subsection \<open>The search never raises on a solvable instance\<close>

lemma count_conflicts_total:
  "i < length word \<Longrightarrow> \<forall>nw\<in>set dn. j < length nw \<Longrightarrow>
   \<exists>c. count_conflicts i j word dn count = Inr c"
  by (induction dn arbitrary: count) (auto simp: letter_def)

lemma count_neighbors_total:
  assumes rng: "in_range cw" and ok: "store_ok cw m doms"
    and var: "var \<in> set (variables cw)" and len: "length word = var_length var"
  shows "\<forall>n\<in>set ns. n \<in> set (variables cw) \<and> n \<noteq> var \<Longrightarrow>
    \<exists>c. count_neighbors cw doms var word ns count = Inr c"
proof (induction ns arbitrary: count)
  case Nil
  show ?case by simp
next
  case (Cons n ns)
  from Cons.prems have n: "n \<in> set (variables cw)" "var \<noteq> n"
    and rest: "\<forall>n\<in>set ns. n \<in> set (variables cw) \<and> n \<noteq> var" by auto
  show ?case
  proof (cases "overlaps cw var n")
    case None
    with Cons.IH [OF rest] show ?thesis by simp
  next
    case (Some ij)
    obtain i j where ij: "ij = (i, j)" by (cases ij)
    with Some have ov: "overlaps cw var n = Some (i, j)" by simp
    from in_rangeD [OF rng var n ov] have r: "i < var_length var" "j < var_length n"
      by simp_all
    from store_okD [OF ok n(1)] obtain dn where
      dn: "map_of doms n = Some dn" "\<forall>u. u \<in> set dn \<longrightarrow> length u = var_length n" by blast
    from r(1) len have "i < length word" by simp
    moreover from r(2) dn(2) have "\<forall>nw\<in>set dn. j < length nw" by simp
    ultimately obtain c where c: "count_conflicts i j word dn count = Inr c"
      using count_conflicts_total by blast
    from Cons.IH [OF rest, of c] obtain c' where
      "count_neighbors cw doms var word ns c = Inr c'" by blast
    with ov dn(1) c show ?thesis by simp
  qed
qed

lemma order_domain_values_total:
  assumes rng: "in_range cw" and ok: "store_ok cw m doms" and var: "var \<in> set (variables cw)"
  shows "\<exists>vals. order_domain_values cw doms var a = Inr vals"
proof -
  let ?ns = "filter (\<lambda>n. n \<notin> set (map fst a)) (neighbors cw var)"
  from store_okD [OF ok var] obtain dv where
    dv: "map_of doms var = Some dv" "\<forall>u. u \<in> set dv \<longrightarrow> length u = var_length var" by blast
  have ns: "\<forall>n\<in>set ?ns. n \<in> set (variables cw) \<and> n \<noteq> var"
    by (auto simp: neighbors_def)
  have "\<forall>word\<in>set dv. \<exists>c. count_neighbors cw doms var word ?ns 0 = Inr c"
  proof
    fix word assume "word \<in> set dv"
    with dv(2) have "length word = var_length var" by simp
    from count_neighbors_total [OF rng ok var this ns]
    show "\<exists>c. count_neighbors cw doms var word ?ns 0 = Inr c" .
  qed
  from mapE_total [OF this] obtain counts where
    "mapE (\<lambda>word. count_neighbors cw doms var word ?ns 0) dv = Inr counts" by blast
  with dv(1) show ?thesis by (simp add: order_domain_values_def)
qed

lemma consistent_total:
  assumes rng: "in_range cw" and keys: "set (map fst a) \<subseteq> set (variables cw)"
  shows "\<exists>b. consistent cw a = Inr b"
proof (cases "length (remdups (map snd a)) \<noteq> length a \<or>
    list_ex (\<lambda>(var, word). length word \<noteq> var_length var) a")
  case True
  then show ?thesis by (auto simp: consistent_def)
next
  case False
  then have len: "\<And>v w. (v, w) \<in> set a \<Longrightarrow> length w = var_length v"
    by (auto simp: list_ex_iff)
  have "\<exists>b. check_pairs cw a (List.product (map fst a) (map fst a)) = Inr b"
  proof (rule check_pairs_total, intro allI impI)
    fix v1 v2 i j
    assume h: "(v1, v2) \<in> set (List.product (map fst a) (map fst a)) \<and> v1 \<noteq> v2 \<and>
        overlaps cw v1 v2 = Some (i, j)"
    then have k: "v1 \<in> set (map fst a)" "v2 \<in> set (map fst a)"
      and ne: "v1 \<noteq> v2" and ov: "overlaps cw v1 v2 = Some (i, j)" by simp_all
    from k keys have V: "v1 \<in> set (variables cw)" "v2 \<in> set (variables cw)" by blast+
    from in_keys_map_of [OF k(1)] in_keys_map_of [OF k(2)] obtain w1 w2 where
      w: "map_of a v1 = Some w1" "map_of a v2 = Some w2" by blast
    then have "(v1, w1) \<in> set a" "(v2, w2) \<in> set a" by (auto dest: map_of_SomeD)
    then have "length w1 = var_length v1" "length w2 = var_length v2" by (auto intro: len)
    with in_rangeD [OF rng V ne ov] w
    show "\<exists>w1 w2. map_of a v1 = Some w1 \<and> map_of a v2 = Some w2 \<and>
        i < length w1 \<and> j < length w2" by simp
  qed
  with False show ?thesis by (auto simp: consistent_def)
qed

text \<open>An assignment agrees with a mapping when each of its entries is an entry of the
  mapping.\<close>

definition agrees :: "(variable \<rightharpoonup> string) \<Rightarrow> assignment \<Rightarrow> bool" where
  "agrees m a \<longleftrightarrow> (\<forall>v w. (v, w) \<in> set a \<longrightarrow> m v = Some w)"

lemma consistent_spec_mono:
  assumes "consistent_spec cw m" and sub: "\<And>v w. m' v = Some w \<Longrightarrow> m v = Some w"
  shows "consistent_spec cw m'"
proof -
  from assms(1) have
    1: "\<And>v1 v2 w. v1 \<noteq> v2 \<Longrightarrow> m v1 = Some w \<Longrightarrow> m v2 \<noteq> Some w" and
    2: "\<And>v w. m v = Some w \<Longrightarrow> length w = var_length v" and
    3: "\<And>v1 v2 w1 w2 i j. v1 \<noteq> v2 \<Longrightarrow> m v1 = Some w1 \<Longrightarrow> m v2 = Some w2 \<Longrightarrow>
        overlaps cw v1 v2 = Some (i, j) \<Longrightarrow> i < length w1 \<and> j < length w2 \<and> w1 ! i = w2 ! j"
    unfolding consistent_spec_def by blast+
  have a: "\<forall>v1 v2 w. v1 \<noteq> v2 \<and> m' v1 = Some w \<longrightarrow> m' v2 \<noteq> Some w"
  proof (intro allI impI)
    fix v1 v2 w assume "v1 \<noteq> v2 \<and> m' v1 = Some w"
    then have "v1 \<noteq> v2" "m v1 = Some w" by (auto intro: sub)
    from 1 [OF this] show "m' v2 \<noteq> Some w" by (auto dest: sub)
  qed
  have b: "\<forall>v w. m' v = Some w \<longrightarrow> length w = var_length v"
  proof (intro allI impI)
    fix v w assume "m' v = Some w"
    then show "length w = var_length v" by (intro 2 sub)
  qed
  have c: "\<forall>v1 v2 w1 w2 i j.
        v1 \<noteq> v2 \<and> m' v1 = Some w1 \<and> m' v2 = Some w2 \<and> overlaps cw v1 v2 = Some (i, j) \<longrightarrow>
        i < length w1 \<and> j < length w2 \<and> w1 ! i = w2 ! j"
  proof (intro allI impI)
    fix v1 v2 w1 w2 i j
    assume h: "v1 \<noteq> v2 \<and> m' v1 = Some w1 \<and> m' v2 = Some w2 \<and> overlaps cw v1 v2 = Some (i, j)"
    then have "v1 \<noteq> v2" "m v1 = Some w1" "m v2 = Some w2" "overlaps cw v1 v2 = Some (i, j)"
      by (auto intro: sub)
    from 3 [OF this] show "i < length w1 \<and> j < length w2 \<and> w1 ! i = w2 ! j" .
  qed
  from a b c show ?thesis unfolding consistent_spec_def by (intro conjI)
qed

lemma agrees_consistent:
  assumes sol: "solution cw m" and d: "distinct (map fst a)" and ag: "agrees m a"
  shows "consistent cw a = Inr True"
proof -
  from sol have c: "consistent_spec cw m" by (simp add: solution_def)
  have "consistent_spec cw (map_of a)"
  proof (rule consistent_spec_mono [OF c])
    fix v w assume "map_of a v = Some w"
    then have "(v, w) \<in> set a" by (rule map_of_SomeD)
    with ag show "m v = Some w" by (simp add: agrees_def)
  qed
  with consistent_True_iff [OF d, of cw] show ?thesis by simp
qed

lemma agrees_update:
  "agrees m a \<Longrightarrow> var \<notin> set (map fst a) \<Longrightarrow> m var = Some val \<Longrightarrow>
   agrees m (AList.update var val a)"
  by (auto simp: agrees_def update_fresh)

lemma store_ok_keys:
  assumes "store_ok cw m doms"
  shows "set (variables cw) \<subseteq> set (map fst doms)"
proof
  fix v assume "v \<in> set (variables cw)"
  from store_okD [OF assms this] obtain d where "map_of doms v = Some d" by blast
  then show "v \<in> set (map fst doms)" by (rule map_of_in_keys)
qed

lemma backtrack_complete_both:
  "solution cw m \<and> store_ok cw m doms \<and> well_keyed cw a \<longrightarrow>
     (\<exists>res a2. backtrack cw doms a = Inr (res, a2)) \<and>
     (agrees m a \<longrightarrow> (\<exists>r a2. backtrack cw doms a = Inr (Some r, a2)))"
  "solution cw m \<and> store_ok cw m doms \<and> well_keyed cw a \<and>
   var \<in> set (variables cw) \<and> var \<notin> set (map fst a) \<longrightarrow>
     (\<exists>res a2. try_values cw doms var vals a = Inr (res, a2)) \<and>
     (agrees m a \<and> (\<exists>w. m var = Some w \<and> w \<in> set vals) \<longrightarrow>
        (\<exists>r a2. try_values cw doms var vals a = Inr (Some r, a2)))"
proof (induct cw doms a and cw doms var vals a rule: backtrack_try_values.induct)
  case (1 cw doms a)
  show ?case
  proof (intro impI)
    assume h: "solution cw m \<and> store_ok cw m doms \<and> well_keyed cw a"
    then have sol: "solution cw m" and ok: "store_ok cw m doms" and wk: "well_keyed cw a"
      by simp_all
    show "(\<exists>res a2. backtrack cw doms a = Inr (res, a2)) \<and>
      (agrees m a \<longrightarrow> (\<exists>r a2. backtrack cw doms a = Inr (Some r, a2)))"
    proof (cases "assignment_complete cw a")
      case True
      then have "backtrack cw doms a = Inr (Some a, a)" by (simp add: backtrack.simps)
      then show ?thesis by simp
    next
      case nc: False
      from select_total [OF store_ok_keys [OF ok], of a] obtain r where
        r: "select_unassigned_variable cw doms a = Inr r" by blast
      with nc select_None_iff [of cw doms a] obtain var where "r = Some var"
        by (cases r) auto
      with r have sel: "select_unassigned_variable cw doms a = Inr (Some var)" by simp
      from select_Some_unassigned [OF sel]
      have v: "var \<in> set (variables cw)" "var \<notin> set (map fst a)" by simp_all
      from order_domain_values_total [OF solution_in_range [OF sol] ok v(1), of a]
      obtain vals where ord: "order_domain_values cw doms var a = Inr vals" by blast
      from order_domain_values_set [OF ord] obtain dv where
        dv: "map_of doms var = Some dv" "set vals = set dv" by blast
      from store_okD [OF ok v(1)] dv obtain w where w: "m var = Some w" "w \<in> set vals"
        by auto
      from nc sel ord have eq: "backtrack cw doms a = try_values cw doms var vals a"
        by (simp add: backtrack.simps)
      from 1 [OF nc sel refl ord] h v
      have "(\<exists>res a2. try_values cw doms var vals a = Inr (res, a2)) \<and>
        (agrees m a \<and> (\<exists>w. m var = Some w \<and> w \<in> set vals) \<longrightarrow>
          (\<exists>r a2. try_values cw doms var vals a = Inr (Some r, a2)))" by simp
      with w eq show ?thesis by auto
    qed
  qed
next
  case (2 cw doms var a)
  show ?case by simp
next
  case (3 cw doms var val rest a)
  show ?case
  proof (intro impI)
    assume h: "solution cw m \<and> store_ok cw m doms \<and> well_keyed cw a \<and>
      var \<in> set (variables cw) \<and> var \<notin> set (map fst a)"
    then have sol: "solution cw m" and ok: "store_ok cw m doms" and wk: "well_keyed cw a"
      and v: "var \<in> set (variables cw)" and fresh: "var \<notin> set (map fst a)" by simp_all
    let ?a1 = "AList.update var val a"
    have undo: "AList.delete var ?a1 = a" using fresh by (rule delete_update_fresh)
    have wk1: "well_keyed cw ?a1" using wk v by (rule well_keyed_update)
    then have k1: "set (map fst ?a1) \<subseteq> set (variables cw)" and d1: "distinct (map fst ?a1)"
      by (simp_all add: well_keyed_def)
    from consistent_total [OF solution_in_range [OF sol] k1] obtain b where
      c: "consistent cw ?a1 = Inr b" by blast
    have right: "consistent cw ?a1 = Inr True \<and> agrees m ?a1"
      if "agrees m a" "m var = Some val"
    proof -
      from agrees_update [OF that(1) fresh that(2)] have "agrees m ?a1" .
      with agrees_consistent [OF sol d1] show ?thesis by simp
    qed
    have rest_case:
      "(\<exists>res a2. try_values cw doms var (val # rest) a = Inr (res, a2)) \<and>
       (agrees m a \<and> (\<exists>w. m var = Some w \<and> w \<in> set (val # rest)) \<longrightarrow>
          (\<exists>r a2. try_values cw doms var (val # rest) a = Inr (Some r, a2)))"
      if ih: "solution cw m \<and> store_ok cw m doms \<and> well_keyed cw a \<and>
           var \<in> set (variables cw) \<and> var \<notin> set (map fst a) \<longrightarrow>
         (\<exists>res a2. try_values cw doms var rest a = Inr (res, a2)) \<and>
         (agrees m a \<and> (\<exists>w. m var = Some w \<and> w \<in> set rest) \<longrightarrow>
            (\<exists>r a2. try_values cw doms var rest a = Inr (Some r, a2)))"
        and eq: "try_values cw doms var (val # rest) a = try_values cw doms var rest a"
        and wrong: "agrees m a \<Longrightarrow> m var \<noteq> Some val"
    proof -
      from ih h have
        1: "\<exists>res a2. try_values cw doms var rest a = Inr (res, a2)" and
        2: "agrees m a \<and> (\<exists>w. m var = Some w \<and> w \<in> set rest) \<longrightarrow>
            (\<exists>r a2. try_values cw doms var rest a = Inr (Some r, a2))" by simp_all
      have "\<exists>r a2. try_values cw doms var rest a = Inr (Some r, a2)"
        if t: "agrees m a \<and> (\<exists>w. m var = Some w \<and> w \<in> set (val # rest))"
      proof -
        from t obtain w where w: "m var = Some w" "w \<in> set (val # rest)" by blast
        from t wrong w(1) have "w \<noteq> val" by auto
        with w(2) have "w \<in> set rest" by simp
        with 2 t w(1) show ?thesis by blast
      qed
      with 1 eq show ?thesis by simp
    qed
    show "(\<exists>res a2. try_values cw doms var (val # rest) a = Inr (res, a2)) \<and>
       (agrees m a \<and> (\<exists>w. m var = Some w \<and> w \<in> set (val # rest)) \<longrightarrow>
          (\<exists>r a2. try_values cw doms var (val # rest) a = Inr (Some r, a2)))"
    proof (cases b)
      case False
      with c undo have eq: "try_values cw doms var (val # rest) a = try_values cw doms var rest a"
        by simp
      have wrong: "m var \<noteq> Some val" if "agrees m a"
      proof
        assume "m var = Some val"
        from right [OF that this] c False show False by simp
      qed
      from 3(3) [OF c False] undo
      have "solution cw m \<and> store_ok cw m doms \<and> well_keyed cw a \<and>
           var \<in> set (variables cw) \<and> var \<notin> set (map fst a) \<longrightarrow>
         (\<exists>res a2. try_values cw doms var rest a = Inr (res, a2)) \<and>
         (agrees m a \<and> (\<exists>w. m var = Some w \<and> w \<in> set rest) \<longrightarrow>
            (\<exists>r a2. try_values cw doms var rest a = Inr (Some r, a2)))" by simp
      from rest_case [OF this eq wrong] show ?thesis .
    next
      case True
      from 3(1) [OF c True] sol ok wk1
      have p: "(\<exists>res a2. backtrack cw doms ?a1 = Inr (res, a2)) \<and>
        (agrees m ?a1 \<longrightarrow> (\<exists>r a2. backtrack cw doms ?a1 = Inr (Some r, a2)))" by simp
      then obtain res a3 where bt: "backtrack cw doms ?a1 = Inr (res, a3)" by blast
      show ?thesis
      proof (cases res)
        case (Some r)
        with c True bt have "try_values cw doms var (val # rest) a = Inr (Some r, a3)"
          by simp
        then show ?thesis by simp
      next
        case None
        with bt backtrack_undo_both(1) have a3: "a3 = ?a1" by blast
        then have k: "var \<in> set (map fst a3)" by (simp add: keys_update)
        with c True bt None a3 undo
        have eq: "try_values cw doms var (val # rest) a = try_values cw doms var rest a"
          by simp
        have wrong: "m var \<noteq> Some val" if "agrees m a"
        proof
          assume "m var = Some val"
          from right [OF that this] p bt None show False by simp
        qed
        from 3(2) [OF c True bt refl None k] a3 undo
        have "solution cw m \<and> store_ok cw m doms \<and> well_keyed cw a \<and>
             var \<in> set (variables cw) \<and> var \<notin> set (map fst a) \<longrightarrow>
           (\<exists>res a2. try_values cw doms var rest a = Inr (res, a2)) \<and>
           (agrees m a \<and> (\<exists>w. m var = Some w \<and> w \<in> set rest) \<longrightarrow>
              (\<exists>r a2. try_values cw doms var rest a = Inr (Some r, a2)))" by simp
        from rest_case [OF this eq wrong] show ?thesis .
      qed
    qed
  qed
qed

lemma solve_finds_solution:
  assumes sol: "solution cw m"
  shows "\<exists>r. solve cw = Inr (Some r)"
proof -
  from ac3_store_ok [OF sol] obtain doms2 ok where
    ac: "ac3 cw (enforce_node_consistency (init_domains cw)) None = Inr (doms2, ok)"
    and st: "store_ok cw m doms2" by blast
  have "well_keyed cw []" by (simp add: well_keyed_def)
  moreover have "agrees m []" by (simp add: agrees_def)
  ultimately obtain r a2 where "backtrack cw doms2 [] = Inr (Some r, a2)"
    using backtrack_complete_both(1) [of cw m doms2 "[]"] sol st by blast
  with ac have "solve cw = Inr (Some r)" by (simp add: solve_def solve_trace_def)
  then show ?thesis by blast
qed

text \<open>
  C3. If some total assignment of vocabulary words to the variables of the instance is
  consistent (pairwise distinct words, each of the length of its variable, equal letters at
  every overlap of two variables), then \<open>solve\<close> returns an assignment; so \<open>solve\<close>
  returns \<open>None\<close> only when there is no such assignment.
\<close>

theorem solve_complete:
  "((\<exists>m. solution cw m) \<longrightarrow> (\<exists>r. solve cw = Inr (Some r))) \<and>
   (solve cw = Inr None \<longrightarrow> \<not> (\<exists>m. solution cw m))"
proof (intro conjI impI)
  assume "\<exists>m. solution cw m"
  then obtain m where "solution cw m" by blast
  then show "\<exists>r. solve cw = Inr (Some r)" by (rule solve_finds_solution)
next
  assume n: "solve cw = Inr None"
  show "\<not> (\<exists>m. solution cw m)"
  proof
    assume "\<exists>m. solution cw m"
    then obtain m where "solution cw m" by blast
    from solve_finds_solution [OF this] n show False by simp
  qed
qed

lemma cross_fill_solution: "solution cross_sat (map_of cross_fill)"
proof -
  have d: "distinct (map fst cross_fill)" by (simp add: cross_fill_def)
  from consistent_True_iff [OF d, of cross_sat] consistent_cross_fill
  have "consistent_spec cross_sat (map_of cross_fill)" by simp
  moreover have "dom (map_of cross_fill) = set (variables cross_sat)"
    by (auto simp: cross_fill_def cross_sat_def)
  moreover have "\<forall>v w. map_of cross_fill v = Some w \<longrightarrow> w \<in> set (words cross_sat)"
    by (auto simp: cross_fill_def cross_sat_def split: if_splits)
  ultimately show ?thesis by (simp add: solution_def)
qed

theorem solve_complete_witness:
  "dom (map_of cross_fill) = set (variables cross_sat) \<and>
   (\<exists>r. solve cross_sat = Inr (Some r))"
proof -
  have "\<exists>m. solution cross_sat m" using cross_fill_solution by blast
  with solve_complete [of cross_sat] have "\<exists>r. solve cross_sat = Inr (Some r)" by blast
  moreover have "dom (map_of cross_fill) = set (variables cross_sat)"
    by (auto simp: cross_fill_def cross_sat_def)
  ultimately show ?thesis by blast
qed

end
